theory Spec2Isabelle
  imports Main "HOL-Library.Word"
begin

unbundle bit_operations_syntax

section \<open>Byte streams and exceptions\<close>

type_synonym byte = "8 word"

text \<open>
  Modelled from the spec: the byte stream is an external collaborator of the repository
  (a file object or \<^verbatim>\<open>BytesIO\<close>); the spec gives its interface as
  \<^verbatim>\<open>read(n) -> bytes\<close> (fewer than \<^verbatim>\<open>n\<close> bytes only at end of data),
  \<^verbatim>\<open>seek(offset)\<close> and \<^verbatim>\<open>tell() -> offset\<close>.
  The stream is its bytes \<open>buf\<close> and its cursor \<open>pos\<close>; \<open>reads\<close> and \<open>seeks\<close> count
  the calls of \<^verbatim>\<open>read\<close> and \<^verbatim>\<open>seek\<close> (the stream-access counter of the
  spec's testable properties).
\<close>

record stream =
  buf :: "byte list"
  pos :: nat
  reads :: nat
  seeks :: nat

definition read :: "nat \<Rightarrow> stream \<Rightarrow> byte list \<times> stream" where
  "read n s =
     (let bytes = take n (drop (pos s) (buf s))
      in (bytes, s\<lparr>pos := pos s + length bytes, reads := Suc (reads s)\<rparr>))"

definition seek :: "nat \<Rightarrow> stream \<Rightarrow> stream" where
  "seek offset s = s\<lparr>pos := offset, seeks := Suc (seeks s)\<rparr>"

definition tell :: "stream \<Rightarrow> nat" where
  "tell s = pos s"

text \<open>A fresh stream over the given bytes, as \<^verbatim>\<open>BytesIO(bs)\<close> gives it.\<close>

definition stream_of :: "byte list \<Rightarrow> stream" where
  "stream_of bs = \<lparr>buf = bs, pos = 0, reads = 0, seeks = 0\<rparr>"

text \<open>The bytes from the cursor on, and the stream an optional \<^verbatim>\<open>stream_pos\<close> starts from.\<close>

abbreviation rest :: "stream \<Rightarrow> byte list" where
  "rest s \<equiv> drop (pos s) (buf s)"

abbreviation start_at :: "stream \<Rightarrow> nat option \<Rightarrow> stream" where
  "start_at s stream_pos \<equiv> (case stream_pos of None \<Rightarrow> s | Some p \<Rightarrow> seek p s)"

text \<open>
  The exception classes that cross the functions below. \<open>ConstructError\<close> is the
  layout engine's own error, \<open>ELFParseError\<close> the library's binary parse error,
  \<open>KeyError\<close> Python's missing-key error; \<open>OtherError\<close> stands for every other
  exception class. Each carries what \<^verbatim>\<open>str(e)\<close> shows (the key, for \<open>KeyError\<close>).
\<close>

datatype exn =
    ConstructError string
  | ELFParseError string
  | KeyError int
  | OtherError string

text \<open>
  A record layout (\<^verbatim>\<open>struct\<close>) is used through \<^verbatim>\<open>struct.parse_stream(stream)\<close>
  only: it returns a value or raises, and moves the stream.
\<close>

type_synonym 'a construct = "stream \<Rightarrow> (exn + 'a) \<times> stream"

section \<open>common/utils.py\<close>

subsection \<open>struct_parse\<close>

definition struct_parse :: "'a construct \<Rightarrow> stream \<Rightarrow> nat option \<Rightarrow> (exn + 'a) \<times> stream" where
  "struct_parse struct stream stream_pos =
     (let stream1 = (case stream_pos of None \<Rightarrow> stream | Some p \<Rightarrow> seek p stream)
      in case struct stream1 of
           (Inl (ConstructError e), stream2) \<Rightarrow> (Inl (ELFParseError e), stream2)
         | (r, stream2) \<Rightarrow> (r, stream2))"

subsection \<open>parse_cstring_from_stream\<close>

definition CHUNKSIZE :: nat where
  "CHUNKSIZE = 64"

text \<open>Python's \<^verbatim>\<open>bytes.find\<close> for a single byte: the least index, or \<open>-1\<close>.\<close>

definition bytes_find :: "byte list \<Rightarrow> byte \<Rightarrow> int" where
  "bytes_find chunk b =
     (if b \<in> set chunk then int (length (takeWhile (\<lambda>x. x \<noteq> b) chunk)) else - 1)"

function cstring_loop :: "byte list list \<Rightarrow> stream \<Rightarrow> byte list option \<times> stream" where
  "cstring_loop chunks stream =
     (let chunk = fst (read CHUNKSIZE stream);
          stream1 = snd (read CHUNKSIZE stream);
          end_index = bytes_find chunk 0
      in if end_index \<ge> 0 then (Some (concat (chunks @ [take (nat end_index) chunk])), stream1)
         else if length chunk < CHUNKSIZE then (None, stream1)
         else cstring_loop (chunks @ [chunk]) stream1)"
  by pat_completeness auto
termination
  by (relation "measure (\<lambda>(chunks, stream). length (buf stream) - pos stream)")
     (auto simp: read_def CHUNKSIZE_def Let_def)

declare cstring_loop.simps [simp del]

definition parse_cstring_from_stream :: "stream \<Rightarrow> nat option \<Rightarrow> byte list option \<times> stream" where
  "parse_cstring_from_stream stream stream_pos =
     cstring_loop [] (case stream_pos of None \<Rightarrow> stream | Some p \<Rightarrow> seek p stream)"

subsection \<open>preserve_stream_pos\<close>

text \<open>
  The context manager with the body of its \<^verbatim>\<open>with\<close> block. The generator has no
  \<^verbatim>\<open>try\<close>: an exception of the body is thrown into it at the \<^verbatim>\<open>yield\<close> and
  leaves it there, so the \<^verbatim>\<open>seek\<close> after the \<^verbatim>\<open>yield\<close> runs only when the
  body ends normally.
\<close>

definition preserve_stream_pos :: "(stream \<Rightarrow> (exn + 'a) \<times> stream) \<Rightarrow> stream \<Rightarrow> (exn + 'a) \<times> stream" where
  "preserve_stream_pos body stream =
     (let saved_pos = tell stream
      in case body stream of
           (Inl e, stream1) \<Rightarrow> (Inl e, stream1)
         | (Inr v, stream1) \<Rightarrow> (Inr v, seek saved_pos stream1))"

text \<open>Two guarded operations for the examples: one seeks to 5 and raises, one reads two bytes.\<close>

definition seek_and_fail :: "stream \<Rightarrow> (exn + unit) \<times> stream" where
  "seek_and_fail s = (Inl (OtherError ''fail''), seek 5 s)"

definition read_two :: "stream \<Rightarrow> (exn + byte list) \<times> stream" where
  "read_two s = (Inr (fst (read 2 s)), snd (read 2 s))"

subsection \<open>roundup\<close>

text \<open>
  Python's integers are unbounded and its bitwise operators read them in two's
  complement, as HOL's do on \<open>int\<close>. A negative shift count raises in Python; \<open>bits\<close>
  is a natural number here.
\<close>

definition roundup :: "int \<Rightarrow> nat \<Rightarrow> int" where
  "roundup num bits = ((num - 1) OR (push_bit bits 1 - 1)) + 1"

subsection \<open>lazy\<close>

text \<open>
  An instance with its \<^verbatim>\<open>__dict__\<close>; \<open>getter_calls\<close> counts the invocations of the
  wrapped function on this instance. The descriptor keeps the wrapped function and its
  \<^verbatim>\<open>__name__\<close>. The wrapped function is called with the instance: it returns a value
  or raises, and it may change the instance's \<^verbatim>\<open>__dict__\<close> on the way (the counter
  is out of its reach).
\<close>

record 'v py_object =
  dict :: "string \<rightharpoonup> 'v"
  getter_calls :: nat

record 'v lazy =
  getter :: "(string \<rightharpoonup> 'v) \<Rightarrow> (exn + 'v) \<times> (string \<rightharpoonup> 'v)"
  getter_name :: string

text \<open>
  \<^verbatim>\<open>lazy.__get__(self, obj, _)\<close>: the call \<^verbatim>\<open>getter(obj)\<close> comes first; when it
  raises, the store under \<^verbatim>\<open>getter.__name__\<close> is not reached.
\<close>

definition lazy_get :: "'v lazy \<Rightarrow> 'v py_object \<Rightarrow> (exn + 'v) \<times> 'v py_object" where
  "lazy_get self obj =
     (let obj1 = obj\<lparr>dict := snd (getter self (dict obj)), getter_calls := Suc (getter_calls obj)\<rparr>
      in case fst (getter self (dict obj)) of
           Inl e \<Rightarrow> (Inl e, obj1)
         | Inr val \<Rightarrow> (Inr val, obj1\<lparr>dict := (dict obj1)(getter_name self \<mapsto> val)\<rparr>))"

text \<open>
  Python's attribute lookup \<^verbatim>\<open>obj.name\<close> where the class of \<^verbatim>\<open>obj\<close> binds
  \<^verbatim>\<open>name\<close> to a \<^verbatim>\<open>lazy\<close> descriptor: \<^verbatim>\<open>lazy\<close> defines \<^verbatim>\<open>__get__\<close> only, and
  the instance's \<^verbatim>\<open>__dict__\<close> is looked up under \<^verbatim>\<open>name\<close> before such a
  descriptor is called. The name the class binds the descriptor to is one thing and the
  wrapped function's \<^verbatim>\<open>__name__\<close> another: \<^verbatim>\<open>other = lazy(compute)\<close> binds
  \<^verbatim>\<open>other\<close>, and \<^verbatim>\<open>@lazy def __x(self)\<close> in a class \<^verbatim>\<open>A\<close> binds
  \<^verbatim>\<open>_A__x\<close>, while \<^verbatim>\<open>__name__\<close> is \<^verbatim>\<open>compute\<close> and \<^verbatim>\<open>__x\<close>.
\<close>

definition getattr_lazy :: "string \<Rightarrow> 'v lazy \<Rightarrow> 'v py_object \<Rightarrow> (exn + 'v) \<times> 'v py_object" where
  "getattr_lazy name descr obj =
     (case dict obj name of
        Some val \<Rightarrow> (Inr val, obj)
      | None \<Rightarrow> lazy_get descr obj)"

text \<open>
  \<open>n\<close> accesses in a row by a caller that goes on after an access has raised: what each
  access returned or raised, first access first, and the instance after them.
\<close>

fun accesses :: "string \<Rightarrow> 'v lazy \<Rightarrow> 'v py_object \<Rightarrow> nat \<Rightarrow> (exn + 'v) list \<times> 'v py_object" where
  "accesses name descr obj 0 = ([], obj)"
| "accesses name descr obj (Suc n) =
     (let (r, obj1) = getattr_lazy name descr obj; (rs, obj2) = accesses name descr obj1 n
      in (r # rs, obj2))"

text \<open>
  For the examples: an instance with an empty \<^verbatim>\<open>__dict__\<close>; a function that counts
  its own calls in the attribute \<^verbatim>\<open>n\<close> and returns 42 plus the number of earlier
  calls; a function that raises; and descriptors that wrap them.
\<close>

definition fresh_object :: "int py_object" where
  "fresh_object = \<lparr>dict = Map.empty, getter_calls = 0\<rparr>"

definition counting_getter :: "(string \<rightharpoonup> int) \<Rightarrow> (exn + int) \<times> (string \<rightharpoonup> int)" where
  "counting_getter d =
     (case d ''n'' of
        None \<Rightarrow> (Inr 42, d(''n'' \<mapsto> 1))
      | Some k \<Rightarrow> (Inr (42 + k), d(''n'' \<mapsto> k + 1)))"

definition failing_getter :: "(string \<rightharpoonup> int) \<Rightarrow> (exn + int) \<times> (string \<rightharpoonup> int)" where
  "failing_getter d = (Inl (OtherError ''fail''), d)"

definition lazy_value :: "int lazy" where
  "lazy_value = \<lparr>getter = counting_getter, getter_name = ''value''\<rparr>"

definition lazy_private :: "int lazy" where
  "lazy_private = \<lparr>getter = counting_getter, getter_name = ''__x''\<rparr>"

definition lazy_failing :: "int lazy" where
  "lazy_failing = \<lparr>getter = failing_getter, getter_name = ''value''\<rparr>"

section \<open>The record layouts of the abbreviation table\<close>

text \<open>
  Modelled from the spec: the layout engine and the layouts \<^verbatim>\<open>Dwarf_uleb128\<close> and
  \<^verbatim>\<open>Dwarf_abbrev_declaration\<close> are not among the source files. The spec gives the
  wire format
  \<^verbatim>\<open>entry := code:uleb128(!=0) tag:uleb128 children:u8 attr_spec* (0,0)\<close>,
  \<^verbatim>\<open>attr_spec := name:uleb128 form:uleb128\<close>, with ULEB128 the unsigned
  little-endian base-128 integer, and says that the engine raises its own error on a
  truncated stream. The layouts below keep the decoded numbers as they are (no
  symbolic names). The functions of the source take
  the layouts as a parameter; these are the instance the examples run on.
\<close>

subsection \<open>ULEB128 and the one-byte integer\<close>

fun uleb128_value :: "byte list \<Rightarrow> int" where
  "uleb128_value [] = 0"
| "uleb128_value (b # bs) = uint (b AND 0x7f) + push_bit 7 (uleb128_value bs)"

text \<open>
  The engine reads one byte per \<^verbatim>\<open>read\<close> call until a byte has its high bit clear:
  it passes the run of bytes with the high bit set and one more byte, or reaches the
  end of the stream (one more, empty, read) and raises.
\<close>

definition ULEB128 :: "int construct" where
  "ULEB128 s =
     (let bytes = rest s;
          n = length (takeWhile (\<lambda>b. \<not> b < 0x80) bytes)
      in if n < length bytes
         then (Inr (uleb128_value (take (Suc n) bytes)),
               s\<lparr>pos := pos s + Suc n, reads := reads s + Suc n\<rparr>)
         else (Inl (ConstructError ''missing terminator''),
               s\<lparr>pos := pos s + length bytes, reads := reads s + Suc (length bytes)\<rparr>))"

definition UBInt8 :: "int construct" where
  "UBInt8 s =
     (case fst (read 1 s) of
        [] \<Rightarrow> (Inl (ConstructError ''expected 1, found 0''), snd (read 1 s))
      | b # _ \<Rightarrow> (Inr (uint b), snd (read 1 s)))"

subsection \<open>The declaration body\<close>

record abbrev_declaration =
  tag :: int
  children_flag :: int
  attr_spec :: "(int \<times> int) list"

function attr_spec_loop :: "(int \<times> int) list \<Rightarrow> stream \<Rightarrow> (exn + (int \<times> int) list) \<times> stream" where
  "attr_spec_loop obj s =
     (case ULEB128 s of
        (Inl e, s1) \<Rightarrow> (Inl e, s1)
      | (Inr name, s1) \<Rightarrow>
          (case ULEB128 s1 of
             (Inl e, s2) \<Rightarrow> (Inl e, s2)
           | (Inr form, s2) \<Rightarrow>
               if name = 0 \<and> form = 0 then (Inr obj, s2)
               else attr_spec_loop (obj @ [(name, form)]) s2))"
  by pat_completeness auto
termination
  by (relation "measure (\<lambda>(obj, s). length (buf s) - pos s)")
     (auto simp: ULEB128_def Let_def split: if_splits)

declare attr_spec_loop.simps [simp del]

definition abbrev_declaration_parse :: "abbrev_declaration construct" where
  "abbrev_declaration_parse s =
     (case ULEB128 s of
        (Inl e, s1) \<Rightarrow> (Inl e, s1)
      | (Inr t, s1) \<Rightarrow>
          (case UBInt8 s1 of
             (Inl e, s2) \<Rightarrow> (Inl e, s2)
           | (Inr c, s2) \<Rightarrow>
               (case attr_spec_loop [] s2 of
                  (Inl e, s3) \<Rightarrow> (Inl e, s3)
                | (Inr specs, s3) \<Rightarrow>
                    (Inr \<lparr>tag = t, children_flag = c, attr_spec = specs\<rparr>, s3))))"

section \<open>dwarf/abbrevtable.py\<close>

text \<open>
  \<^verbatim>\<open>_abbrev_table_parser\<close> is a generator. Its state between two \<^verbatim>\<open>next\<close> calls
  is: not started (\<open>Created\<close>), suspended at the \<^verbatim>\<open>yield\<close> with its local
  \<^verbatim>\<open>offset\<close>, or finished (after the \<^verbatim>\<open>break\<close>, or after an exception left
  it). One \<^verbatim>\<open>next\<close> yields a declaration, ends the iteration or raises.
\<close>

datatype gen_state = Created | Suspended nat | Finished

datatype 'a step = Yield 'a | StopIteration | Raise exn

record 'd AbbrevDecl =
  code :: int
  decl :: 'd

record 'd DWARFStructs =
  Dwarf_uleb128 :: "int construct"
  Dwarf_abbrev_declaration :: "'d construct"

record 'd AbbrevTable =
  structs :: "'d DWARFStructs"
  stream :: stream
  offset :: nat
  parser_state :: gen_state
  abbrev_map :: "int \<rightharpoonup> 'd AbbrevDecl"

definition AbbrevTable_init :: "'d DWARFStructs \<Rightarrow> stream \<Rightarrow> nat \<Rightarrow> 'd AbbrevTable" where
  "AbbrevTable_init structs0 stream0 offset0 =
     \<lparr>structs = structs0, stream = stream0, offset = offset0,
      parser_state = Created, abbrev_map = Map.empty\<rparr>"

definition parser_iteration :: "nat \<Rightarrow> 'd AbbrevTable \<Rightarrow> 'd AbbrevDecl step \<times> 'd AbbrevTable" where
  "parser_iteration offset0 self =
     (case struct_parse (Dwarf_uleb128 (structs self)) (seek offset0 (stream self)) None of
        (Inl e, stream1) \<Rightarrow> (Raise e, self\<lparr>stream := stream1, parser_state := Finished\<rparr>)
      | (Inr decl_code, stream1) \<Rightarrow>
          if decl_code = 0
          then (StopIteration, self\<lparr>stream := stream1, parser_state := Finished\<rparr>)
          else (case struct_parse (Dwarf_abbrev_declaration (structs self)) stream1 None of
                  (Inl e, stream2) \<Rightarrow> (Raise e, self\<lparr>stream := stream2, parser_state := Finished\<rparr>)
                | (Inr declaration, stream2) \<Rightarrow>
                    (Yield \<lparr>code = decl_code, decl = declaration\<rparr>,
                     self\<lparr>stream := stream2, parser_state := Suspended (tell stream2)\<rparr>)))"

definition abbrev_table_parser_next :: "'d AbbrevTable \<Rightarrow> 'd AbbrevDecl step \<times> 'd AbbrevTable" where
  "abbrev_table_parser_next self =
     (case parser_state self of
        Created \<Rightarrow> parser_iteration (offset self) self
      | Suspended offset0 \<Rightarrow> parser_iteration offset0 self
      | Finished \<Rightarrow> (StopIteration, self))"

partial_function (option) get_abbrev_scan ::
    "'d AbbrevTable \<Rightarrow> int \<Rightarrow> ((exn + 'd AbbrevDecl) \<times> 'd AbbrevTable) option" where
  "get_abbrev_scan self c =
     (case abbrev_table_parser_next self of
        (Raise e, self1) \<Rightarrow> Some (Inl e, self1)
      | (StopIteration, self1) \<Rightarrow> Some (Inl (KeyError c), self1)
      | (Yield d, self1) \<Rightarrow>
          (let self2 = self1\<lparr>abbrev_map := (abbrev_map self1)(code d \<mapsto> d)\<rparr>
           in if code d = c then Some (Inr d, self2) else get_abbrev_scan self2 c))"

definition get_abbrev :: "'d AbbrevTable \<Rightarrow> int \<Rightarrow> ((exn + 'd AbbrevDecl) \<times> 'd AbbrevTable) option" where
  "get_abbrev self c =
     (case abbrev_map self c of
        Some d \<Rightarrow> Some (Inr d, self)
      | None \<Rightarrow> get_abbrev_scan self c)"

text \<open>The layouts of the previous section as a \<^verbatim>\<open>DWARFStructs\<close> instance.\<close>

definition dwarf_structs :: "abbrev_declaration DWARFStructs" where
  "dwarf_structs = \<lparr>Dwarf_uleb128 = ULEB128, Dwarf_abbrev_declaration = abbrev_declaration_parse\<rparr>"

subsection \<open>Vocabulary for the statements\<close>

text \<open>The table with a declaration stored in its cache, as the loop of \<^verbatim>\<open>get_abbrev\<close> stores it.\<close>

abbreviation cached :: "'d AbbrevDecl \<Rightarrow> 'd AbbrevTable \<Rightarrow> 'd AbbrevTable" where
  "cached d self \<equiv> self\<lparr>abbrev_map := (abbrev_map self)(code d \<mapsto> d)\<rparr>"

text \<open>The table after someone else has moved the position of the shared stream to \<open>p\<close>.\<close>

abbreviation moved :: "nat \<Rightarrow> 'd AbbrevTable \<Rightarrow> 'd AbbrevTable" where
  "moved p self \<equiv> self\<lparr>stream := (stream self)\<lparr>pos := p\<rparr>\<rparr>"

text \<open>
  \<open>yields self ds\<close>: the next iterations of the loop of \<^verbatim>\<open>get_abbrev\<close> decode the
  declarations \<open>ds\<close>, in this order; the result is the table after them.
\<close>

fun yields :: "'d AbbrevTable \<Rightarrow> 'd AbbrevDecl list \<Rightarrow> 'd AbbrevTable option" where
  "yields self [] = Some self"
| "yields self (d # ds) =
     (case abbrev_table_parser_next self of
        (Yield d', self1) \<Rightarrow> if d' = d then yields (cached d self1) ds else None
      | (StopIteration, self1) \<Rightarrow> None
      | (Raise e, self1) \<Rightarrow> None)"

text \<open>
  \<open>calls self cs\<close>: the table after the calls \<^verbatim>\<open>get_abbrev(c)\<close> for the codes
  \<open>cs\<close> in a row, whatever each returned or raised; \<open>None\<close> if one does not return.
\<close>

fun calls :: "'d AbbrevTable \<Rightarrow> int list \<Rightarrow> 'd AbbrevTable option" where
  "calls self [] = Some self"
| "calls self (c # cs) =
     (case get_abbrev self c of
        None \<Rightarrow> None
      | Some (r, self1) \<Rightarrow> calls self1 cs)"

text \<open>
  \<open>lookups self cs\<close>: what the calls \<^verbatim>\<open>get_abbrev(c)\<close> for the codes \<open>cs\<close> in a
  row return or raise, first call first.
\<close>

fun lookups :: "'d AbbrevTable \<Rightarrow> int list \<Rightarrow> (exn + 'd AbbrevDecl) list option" where
  "lookups self [] = Some []"
| "lookups self (c # cs) =
     (case get_abbrev self c of
        None \<Rightarrow> None
      | Some (r, self1) \<Rightarrow> map_option ((#) r) (lookups self1 cs))"

text \<open>
  The parser's cursor: the generator's local \<^verbatim>\<open>offset\<close>, which starts as the table's
  offset and is set to the stream position after each declaration; none once the
  generator has finished.
\<close>

definition cursor :: "'d AbbrevTable \<Rightarrow> nat option" where
  "cursor self =
     (case parser_state self of
        Created \<Rightarrow> Some (offset self)
      | Suspended offset0 \<Rightarrow> Some offset0
      | Finished \<Rightarrow> None)"

text \<open>
  What a table holds, read off its stream with the layouts alone:
  \<open>entries st q s ds = Some (q', s')\<close> says that from position \<open>q\<close> of the stream \<open>s\<close>
  the declarations \<open>ds\<close> stand one after the other. The code layout decodes a
  non-zero code at \<open>q\<close> and the declaration layout the body after it, they make the
  first declaration, and the next one begins at the position \<open>tell\<close> gives where this
  one ended. The last one ends at \<open>q'\<close>, with the stream as \<open>s'\<close>.
\<close>

fun entries ::
    "'d DWARFStructs \<Rightarrow> nat \<Rightarrow> stream \<Rightarrow> 'd AbbrevDecl list \<Rightarrow> (nat \<times> stream) option" where
  "entries st q s [] = Some (q, s)"
| "entries st q s (d # ds) =
     (case Dwarf_uleb128 st (seek q s) of
        (Inl e, s1) \<Rightarrow> None
      | (Inr c, s1) \<Rightarrow>
          (case Dwarf_abbrev_declaration st s1 of
             (Inl e, s2) \<Rightarrow> None
           | (Inr b, s2) \<Rightarrow>
               if c \<noteq> 0 \<and> d = \<lparr>code = c, decl = b\<rparr> then entries st (tell s2) s2 ds else None))"

text \<open>The cache after the declarations \<open>ds\<close> have been stored in it, in this order.\<close>

fun stored :: "'d AbbrevDecl list \<Rightarrow> (int \<rightharpoonup> 'd AbbrevDecl) \<Rightarrow> (int \<rightharpoonup> 'd AbbrevDecl)" where
  "stored [] m = m"
| "stored (d # ds) m = stored ds (m(code d \<mapsto> d))"

text \<open>
  The table after a scan has passed and stored the declarations \<open>ds\<close> and the parser
  has finished, with the stream left as \<open>s\<close>.
\<close>

abbreviation exhausted :: "'d AbbrevDecl list \<Rightarrow> stream \<Rightarrow> 'd AbbrevTable \<Rightarrow> 'd AbbrevTable" where
  "exhausted ds s self \<equiv>
     self\<lparr>stream := s, parser_state := Finished, abbrev_map := stored ds (abbrev_map self)\<rparr>"

text \<open>What \<open>struct_parse\<close> raises when the layout has raised \<open>e\<close>.\<close>

definition reraised :: "exn \<Rightarrow> exn" where
  "reraised e = (case e of ConstructError m \<Rightarrow> ELFParseError m | _ \<Rightarrow> e)"

text \<open>
  A layout pair that consumes what it decodes: a decoded code lies on at least one byte
  of the stream, a decoded body ends inside the stream, and neither changes the bytes.
\<close>

definition consuming :: "'d DWARFStructs \<Rightarrow> bool" where
  "consuming st \<longleftrightarrow>
     (\<forall>s v s1. Dwarf_uleb128 st s = (Inr v, s1) \<longrightarrow>
        buf s1 = buf s \<and> pos s < pos s1 \<and> pos s1 \<le> length (buf s))
     \<and> (\<forall>s d s1. Dwarf_abbrev_declaration st s = (Inr d, s1) \<longrightarrow>
        buf s1 = buf s \<and> pos s \<le> pos s1 \<and> pos s1 \<le> length (buf s))"

text \<open>A layout pair that raises nothing but the engine's own error.\<close>

definition construct_errors :: "'d DWARFStructs \<Rightarrow> bool" where
  "construct_errors st \<longleftrightarrow>
     (\<forall>s e s1. Dwarf_uleb128 st s = (Inl e, s1) \<longrightarrow> (\<exists>m. e = ConstructError m))
     \<and> (\<forall>s e s1. Dwarf_abbrev_declaration st s = (Inl e, s1) \<longrightarrow> (\<exists>m. e = ConstructError m))"

text \<open>
  \<open>no_more c self\<close>: no declaration that the parser can still yield from this table
  has the code \<open>c\<close> (in a table with unique codes, this holds once \<open>c\<close> is decoded).
\<close>

definition no_more :: "int \<Rightarrow> 'd AbbrevTable \<Rightarrow> bool" where
  "no_more c self \<longleftrightarrow> (\<forall>ds s. yields self ds = Some s \<longrightarrow> (\<forall>d \<in> set ds. code d \<noteq> c))"

subsection \<open>Auxiliary predicates of the proofs\<close>

text \<open>What a returning lookup leaves behind.\<close>

definition lookup_post :: "'d AbbrevTable \<Rightarrow> int \<Rightarrow> (exn + 'd AbbrevDecl) \<times> 'd AbbrevTable \<Rightarrow> bool" where
  "lookup_post self c y \<longleftrightarrow>
     structs (snd y) = structs self
     \<and> (\<forall>k. abbrev_map self k \<noteq> None \<longrightarrow> abbrev_map (snd y) k \<noteq> None)
     \<and> (abbrev_map self 0 = None \<longrightarrow> abbrev_map (snd y) 0 = None)
     \<and> (case fst y of
           Inr d \<Rightarrow> abbrev_map (snd y) c = Some d
         | Inl e \<Rightarrow>
             parser_state (snd y) = Finished \<and> (\<forall>m. e \<noteq> ConstructError m)
             \<and> (construct_errors (structs self) \<longrightarrow> e = KeyError c \<or> (\<exists>m. e = ELFParseError m)))"

text \<open>A returning scan has decoded some declarations \<open>ds\<close>, and stopped there or finished the parser.\<close>

definition scan_trace :: "'d AbbrevTable \<Rightarrow> int \<Rightarrow> (exn + 'd AbbrevDecl) \<times> 'd AbbrevTable \<Rightarrow> bool" where
  "scan_trace self c y \<longleftrightarrow>
     (\<exists>ds s. yields self ds = Some s
        \<and> (snd y = s \<or> abbrev_map (snd y) = abbrev_map s \<and> parser_state (snd y) = Finished))"

text \<open>The bytes the parser has not passed yet, plus one while it is not finished.\<close>

definition remaining :: "'d AbbrevTable \<Rightarrow> nat" where
  "remaining self =
     (case parser_state self of
        Created \<Rightarrow> Suc (length (buf (stream self)) - offset self)
      | Suspended off \<Rightarrow> Suc (length (buf (stream self)) - off)
      | Finished \<Rightarrow> 0)"

subsection \<open>Example tables\<close>

text \<open>
  A table at offset 2 of its stream, with declarations at the codes 3, 1 and 7 and the
  terminator; the declarations it decodes to; and the table object at a given stream
  position, read and seek count, parser state and cache.
\<close>

definition example_bytes :: "byte list" where
  "example_bytes =
     [0xff, 0xff,
      0x03, 0x11, 0x01, 0x03, 0x08, 0x00, 0x00,
      0x01, 0x24, 0x00, 0x03, 0x08, 0x0b, 0x0b, 0x00, 0x00,
      0x07, 0x34, 0x00, 0x03, 0x0e, 0x00, 0x00,
      0x00]"

definition example_decl3 :: "abbrev_declaration AbbrevDecl" where
  "example_decl3 = \<lparr>code = 3, decl = \<lparr>tag = 0x11, children_flag = 1, attr_spec = [(3, 8)]\<rparr>\<rparr>"

definition example_decl1 :: "abbrev_declaration AbbrevDecl" where
  "example_decl1 = \<lparr>code = 1, decl = \<lparr>tag = 0x24, children_flag = 0, attr_spec = [(3, 8), (11, 11)]\<rparr>\<rparr>"

definition example_decl7 :: "abbrev_declaration AbbrevDecl" where
  "example_decl7 = \<lparr>code = 7, decl = \<lparr>tag = 0x34, children_flag = 0, attr_spec = [(3, 14)]\<rparr>\<rparr>"

definition example_table ::
    "nat \<Rightarrow> nat \<Rightarrow> nat \<Rightarrow> gen_state \<Rightarrow> (int \<rightharpoonup> abbrev_declaration AbbrevDecl)
      \<Rightarrow> abbrev_declaration AbbrevTable" where
  "example_table p r k g m =
     \<lparr>structs = dwarf_structs,
      stream = \<lparr>buf = example_bytes, pos = p, reads = r, seeks = k\<rparr>,
      offset = 2, parser_state = g, abbrev_map = m\<rparr>"

text \<open>A table cut off after its first declaration: no terminator.\<close>

definition truncated_bytes :: "byte list" where
  "truncated_bytes = [0x03, 0x11, 0x01, 0x00, 0x00]"

definition truncated_decl3 :: "abbrev_declaration AbbrevDecl" where
  "truncated_decl3 = \<lparr>code = 3, decl = \<lparr>tag = 0x11, children_flag = 1, attr_spec = []\<rparr>\<rparr>"

text \<open>
  A table at offset 0 that uses the code 3 twice: declarations at the codes 3, 3 and 5
  and the terminator.
\<close>

definition duplicate_bytes :: "byte list" where
  "duplicate_bytes =
     [0x03, 0x11, 0x01, 0x00, 0x00,
      0x03, 0x24, 0x00, 0x00, 0x00,
      0x05, 0x34, 0x00, 0x00, 0x00,
      0x00]"

definition duplicate_first :: "abbrev_declaration AbbrevDecl" where
  "duplicate_first = \<lparr>code = 3, decl = \<lparr>tag = 0x11, children_flag = 1, attr_spec = []\<rparr>\<rparr>"

definition duplicate_second :: "abbrev_declaration AbbrevDecl" where
  "duplicate_second = \<lparr>code = 3, decl = \<lparr>tag = 0x24, children_flag = 0, attr_spec = []\<rparr>\<rparr>"

definition duplicate_five :: "abbrev_declaration AbbrevDecl" where
  "duplicate_five = \<lparr>code = 5, decl = \<lparr>tag = 0x34, children_flag = 0, attr_spec = []\<rparr>\<rparr>"

section \<open>Properties of struct_parse\<close>

text \<open>
  Claim C5. For every record layout, stream and optional position: when the layout
  engine's decode raises its own error \<open>ConstructError msg\<close>, \<open>struct_parse\<close> raises
  \<open>ELFParseError msg\<close>, with the same message and from the same stream state; its
  caller never sees a \<open>ConstructError\<close>; and when the decode returns a value,
  \<open>struct_parse\<close> returns that value.
\<close>

theorem struct_parse_unified_error:
  "(struct (start_at strm stream_pos) = (Inl (ConstructError msg), s1) \<longrightarrow>
      struct_parse struct strm stream_pos = (Inl (ELFParseError msg), s1))
   \<and> fst (struct_parse struct strm stream_pos) \<noteq> Inl (ConstructError msg')
   \<and> (struct (start_at strm stream_pos) = (Inr v, s2) \<longrightarrow>
      struct_parse struct strm stream_pos = (Inr v, s2))"
  by (auto simp: struct_parse_def Let_def split: prod.splits sum.splits exn.splits option.splits)

lemma ULEB128_truncated:
  "ULEB128 (stream_of [0x80]) =
     (Inl (ConstructError ''missing terminator''), \<lparr>buf = [0x80], pos = 1, reads = 2, seeks = 0\<rparr>)"
  by (simp add: ULEB128_def stream_of_def Let_def)

lemma ULEB128_624485:
  "ULEB128 (seek 1 (stream_of [7, 0xe5, 0x8e, 0x26])) =
     (Inr 624485, \<lparr>buf = [7, 0xe5, 0x8e, 0x26], pos = 4, reads = 3, seeks = 1\<rparr>)"
  by (simp add: ULEB128_def stream_of_def seek_def Let_def)

theorem struct_parse_unified_error_witness:
  "struct_parse ULEB128 (stream_of [0x80]) None =
     (Inl (ELFParseError ''missing terminator''), \<lparr>buf = [0x80], pos = 1, reads = 2, seeks = 0\<rparr>)
   \<and> struct_parse ULEB128 (stream_of [7, 0xe5, 0x8e, 0x26]) (Some 1) =
     (Inr 624485, \<lparr>buf = [7, 0xe5, 0x8e, 0x26], pos = 4, reads = 3, seeks = 1\<rparr>)"
proof -
  have raised: "ULEB128 (start_at (stream_of [0x80]) None) =
      (Inl (ConstructError ''missing terminator''), \<lparr>buf = [0x80], pos = 1, reads = 2, seeks = 0\<rparr>)"
    by (simp only: option.case ULEB128_truncated)
  have returned: "ULEB128 (start_at (stream_of [7, 0xe5, 0x8e, 0x26]) (Some 1)) =
      (Inr 624485, \<lparr>buf = [7, 0xe5, 0x8e, 0x26], pos = 4, reads = 3, seeks = 1\<rparr>)"
    by (simp only: option.case ULEB128_624485)
  from struct_parse_unified_error [where struct = ULEB128 and strm = "stream_of [0x80]"
      and stream_pos = None, THEN conjunct1, THEN mp, OF raised]
    struct_parse_unified_error [where struct = ULEB128 and strm = "stream_of [7, 0xe5, 0x8e, 0x26]"
      and stream_pos = "Some 1", THEN conjunct2, THEN conjunct2, THEN mp, OF returned]
  show ?thesis by (rule conjI)
qed

section \<open>Properties of preserve_stream_pos\<close>

text \<open>
  Claim C4, as stated, fails. It says that the stream's position after the guarded
  operation equals the position before it also when the operation raises. Here the
  operation seeks to 5 and raises: the guard lets the exception through without seeking
  back, and the stream stays at 5, not at 0.
\<close>

theorem preserve_stream_pos_raise_counterexample:
  "pos (snd (preserve_stream_pos seek_and_fail (stream_of [1, 2, 3]))) \<noteq> pos (stream_of [1, 2, 3])"
  by (simp add: preserve_stream_pos_def seek_and_fail_def stream_of_def seek_def tell_def)

text \<open>
  Claim C4, amended. When the guarded operation ends normally, \<open>preserve_stream_pos\<close>
  seeks the stream back to the position it had before, so \<^verbatim>\<open>tell\<close> is the same
  before and after. When the operation raises, its exception propagates and the stream
  is left as the operation left it.
\<close>

theorem preserve_stream_pos_restores:
  "(body strm = (Inr v, s1) \<longrightarrow>
      preserve_stream_pos body strm = (Inr v, seek (tell strm) s1)
      \<and> tell (snd (preserve_stream_pos body strm)) = tell strm)
   \<and> (body strm = (Inl e, s2) \<longrightarrow>
      preserve_stream_pos body strm = (Inl e, s2))"
  by (simp add: preserve_stream_pos_def tell_def seek_def)

theorem preserve_stream_pos_restores_witness:
  "tell (seek 1 (stream_of [1, 2, 3])) = 1
   \<and> preserve_stream_pos read_two (seek 1 (stream_of [1, 2, 3]))
       = (Inr [2, 3], \<lparr>buf = [1, 2, 3], pos = 1, reads = 1, seeks = 2\<rparr>)
   \<and> preserve_stream_pos seek_and_fail (stream_of [1, 2, 3])
       = (Inl (OtherError ''fail''), \<lparr>buf = [1, 2, 3], pos = 5, reads = 0, seeks = 1\<rparr>)"
  using preserve_stream_pos_restores [where body = read_two
      and strm = "seek 1 (stream_of [1, 2, 3])" and v = "[2, 3]"
      and ?s1.0 = "\<lparr>buf = [1, 2, 3], pos = 3, reads = 1, seeks = 1\<rparr>", THEN conjunct1]
    preserve_stream_pos_restores [where body = seek_and_fail
      and strm = "stream_of [1, 2, 3]" and e = "OtherError ''fail''"
      and ?s2.0 = "\<lparr>buf = [1, 2, 3], pos = 5, reads = 0, seeks = 1\<rparr>", THEN conjunct2]
  by (simp add: read_two_def seek_and_fail_def stream_of_def read_def seek_def tell_def Let_def)

section \<open>Properties of parse_cstring_from_stream\<close>

lemma read_chunk: "fst (read n s) = take n (rest s)"
  by (simp add: read_def Let_def)

lemma read_stream:
  "snd (read n s) = s\<lparr>pos := pos s + length (take n (rest s)), reads := Suc (reads s)\<rparr>"
  by (simp add: read_def Let_def)

lemma bytes_find_nonneg: "bytes_find chunk b \<ge> 0 \<longleftrightarrow> b \<in> set chunk"
  by (simp add: bytes_find_def)

lemma take_bytes_find:
  "b \<in> set chunk \<Longrightarrow> take (nat (bytes_find chunk b)) chunk = takeWhile (\<lambda>x. x \<noteq> b) chunk"
  by (simp add: bytes_find_def takeWhile_eq_take [symmetric])

lemma takeWhile_take_mem:
  "b \<in> set (take n xs) \<Longrightarrow> takeWhile (\<lambda>x. x \<noteq> b) (take n xs) = takeWhile (\<lambda>x. x \<noteq> b) xs"
proof (induction xs arbitrary: n)
  case Nil
  then show ?case by simp
next
  case (Cons x xs)
  then show ?case by (cases n) auto
qed

lemma cstring_loop_found:
  assumes "chunk = fst (read CHUNKSIZE s)" and "0 \<in> set chunk"
  shows "cstring_loop chunks s =
    (Some (concat chunks @ takeWhile (\<lambda>x. x \<noteq> 0) chunk), snd (read CHUNKSIZE s))"
  using assms(2) unfolding assms(1)
  by (subst cstring_loop.simps) (simp add: Let_def bytes_find_nonneg take_bytes_find)

lemma cstring_loop_short:
  assumes "chunk = fst (read CHUNKSIZE s)" and "0 \<notin> set chunk" and "length chunk < CHUNKSIZE"
  shows "cstring_loop chunks s = (None, snd (read CHUNKSIZE s))"
  using assms(2,3) unfolding assms(1)
  by (subst cstring_loop.simps) (simp add: Let_def bytes_find_nonneg)

lemma cstring_loop_more:
  assumes "chunk = fst (read CHUNKSIZE s)" and "0 \<notin> set chunk" and "\<not> length chunk < CHUNKSIZE"
  shows "cstring_loop chunks s = cstring_loop (chunks @ [chunk]) (snd (read CHUNKSIZE s))"
  using assms(2,3) unfolding assms(1)
  by (subst cstring_loop.simps) (simp add: Let_def bytes_find_nonneg)

lemma rest_after_full_chunk:
  assumes "\<not> length (take n (rest s)) < n"
  shows "rest s = take n (rest s) @ rest (snd (read n s))"
proof -
  from assms have "length (take n (rest s)) = n" by simp
  then have "rest (snd (read n s)) = drop n (rest s)"
    by (simp add: read_stream add.commute [of "pos s"])
  then show ?thesis by (simp only: append_take_drop_id)
qed

lemma cstring_loop_result:
  "fst (cstring_loop chunks s) =
     (if 0 \<in> set (rest s) then Some (concat chunks @ takeWhile (\<lambda>x. x \<noteq> 0) (rest s)) else None)"
proof (induction chunks s rule: cstring_loop.induct)
  case (1 chunks s)
  define chunk where "chunk = fst (read CHUNKSIZE s)"
  then have chunk: "chunk = take CHUNKSIZE (rest s)" by (simp add: read_chunk)
  show ?case
  proof (cases "0 \<in> set chunk")
    case True
    then have "0 \<in> set (rest s)" unfolding chunk by (rule in_set_takeD)
    moreover from True have "takeWhile (\<lambda>x. x \<noteq> 0) chunk = takeWhile (\<lambda>x. x \<noteq> 0) (rest s)"
      unfolding chunk by (rule takeWhile_take_mem)
    ultimately show ?thesis
      by (simp add: cstring_loop_found [OF chunk_def True])
  next
    case notin: False
    show ?thesis
    proof (cases "length chunk < CHUNKSIZE")
      case True
      then have "chunk = rest s" unfolding chunk by (simp add: min_def split: if_splits)
      with notin have "0 \<notin> set (rest s)" by simp
      then show ?thesis
        by (simp add: cstring_loop_short [OF chunk_def notin True])
    next
      case False
      let ?s1 = "snd (read CHUNKSIZE s)"
      have split: "rest s = chunk @ rest ?s1"
        using False unfolding chunk by (rule rest_after_full_chunk)
      from notin have tw: "takeWhile (\<lambda>x. x \<noteq> 0) (chunk @ rest ?s1) = chunk @ takeWhile (\<lambda>x. x \<noteq> 0) (rest ?s1)"
        by (intro takeWhile_append2) auto
      from notin have mem: "0 \<in> set (rest s) \<longleftrightarrow> 0 \<in> set (rest ?s1)"
        by (subst split) simp
      have IH: "fst (cstring_loop (chunks @ [chunk]) ?s1) =
          (if 0 \<in> set (rest ?s1) then Some (concat (chunks @ [chunk]) @ takeWhile (\<lambda>x. x \<noteq> 0) (rest ?s1)) else None)"
        unfolding chunk_def using notin False
        by (intro "1.IH" [OF refl refl refl]) (simp_all add: chunk_def bytes_find_nonneg)
      have "takeWhile (\<lambda>x. x \<noteq> 0) (rest s) = chunk @ takeWhile (\<lambda>x. x \<noteq> 0) (rest ?s1)"
        by (subst split) (rule tw)
      then show ?thesis
        by (simp add: cstring_loop_more [OF chunk_def notin False] IH mem)
    qed
  qed
qed

lemma length_takeWhile_less: "b \<in> set xs \<Longrightarrow> length (takeWhile (\<lambda>x. x \<noteq> b) xs) < length xs"
  by (induction xs) auto

lemma cstring_loop_frame:
  "buf (snd (cstring_loop chunks s)) = buf s \<and> seeks (snd (cstring_loop chunks s)) = seeks s"
proof (induction chunks s rule: cstring_loop.induct)
  case (1 chunks s)
  define chunk where "chunk = fst (read CHUNKSIZE s)"
  consider "0 \<in> set chunk" | "0 \<notin> set chunk" "length chunk < CHUNKSIZE"
    | "0 \<notin> set chunk" "\<not> length chunk < CHUNKSIZE" by blast
  then show ?case
  proof cases
    case 1
    then show ?thesis by (simp add: cstring_loop_found [OF chunk_def] read_stream)
  next
    case 2
    then show ?thesis by (simp add: cstring_loop_short [OF chunk_def] read_stream)
  next
    case 3
    have "buf (snd (cstring_loop (chunks @ [chunk]) (snd (read CHUNKSIZE s)))) = buf (snd (read CHUNKSIZE s))
      \<and> seeks (snd (cstring_loop (chunks @ [chunk]) (snd (read CHUNKSIZE s)))) = seeks (snd (read CHUNKSIZE s))"
      unfolding chunk_def using 3
      by (intro "1.IH" [OF refl refl refl]) (simp_all add: chunk_def bytes_find_nonneg)
    then show ?thesis by (simp add: cstring_loop_more [OF chunk_def 3] read_stream)
  qed
qed

lemma cstring_loop_pos_reads:
  assumes "0 \<in> set (rest s)"
  shows "pos (snd (cstring_loop chunks s)) =
      min (length (buf s)) (pos s + CHUNKSIZE * (length (takeWhile (\<lambda>x. x \<noteq> 0) (rest s)) div CHUNKSIZE + 1))
    \<and> reads (snd (cstring_loop chunks s)) =
      reads s + length (takeWhile (\<lambda>x. x \<noteq> 0) (rest s)) div CHUNKSIZE + 1"
  using assms
proof (induction chunks s rule: cstring_loop.induct)
  case (1 chunks s)
  define chunk where "chunk = fst (read CHUNKSIZE s)"
  then have chunk: "chunk = take CHUNKSIZE (rest s)" by (simp add: read_chunk)
  let ?idx = "length (takeWhile (\<lambda>x. x \<noteq> 0) (rest s))"
  from "1.prems" have inside: "pos s < length (buf s)"
    by (cases "pos s < length (buf s)") auto
  show ?case
  proof (cases "0 \<in> set chunk")
    case True
    have "takeWhile (\<lambda>x. x \<noteq> 0) chunk = takeWhile (\<lambda>x. x \<noteq> 0) (rest s)"
      using True unfolding chunk by (rule takeWhile_take_mem)
    with length_takeWhile_less [OF True] have "?idx < length chunk" by simp
    also have "length chunk \<le> CHUNKSIZE" unfolding chunk by simp
    finally have "?idx div CHUNKSIZE = 0" by simp
    moreover have "pos s + length chunk = min (length (buf s)) (pos s + CHUNKSIZE)"
      unfolding chunk using inside by (auto simp: min_def)
    ultimately show ?thesis
      by (simp add: cstring_loop_found [OF chunk_def True] read_stream flip: chunk)
  next
    case notin: False
    show ?thesis
    proof (cases "length chunk < CHUNKSIZE")
      case True
      then have "chunk = rest s" unfolding chunk by (simp add: min_def split: if_splits)
      with notin "1.prems" show ?thesis by simp
    next
      case False
      define s1 where "s1 = snd (read CHUNKSIZE s)"
      define idx1 where "idx1 = length (takeWhile (\<lambda>x. x \<noteq> 0) (rest s1))"
      define r where "r = snd (cstring_loop (chunks @ [chunk]) s1)"
      from False have len: "length chunk = CHUNKSIZE" unfolding chunk by simp
      have split: "rest s = chunk @ rest s1"
        using False unfolding chunk s1_def by (rule rest_after_full_chunk)
      from notin have "takeWhile (\<lambda>x. x \<noteq> 0) (chunk @ rest s1) = chunk @ takeWhile (\<lambda>x. x \<noteq> 0) (rest s1)"
        by (intro takeWhile_append2) auto
      then have "takeWhile (\<lambda>x. x \<noteq> 0) (rest s) = chunk @ takeWhile (\<lambda>x. x \<noteq> 0) (rest s1)"
        by (subst split)
      then have idx: "?idx = CHUNKSIZE + idx1" by (simp add: len idx1_def)
      have div: "(CHUNKSIZE + idx1) div CHUNKSIZE = Suc (idx1 div CHUNKSIZE)"
        by (simp add: CHUNKSIZE_def)
      from notin "1.prems" have mem: "0 \<in> set (rest s1)"
        by (subst (asm) split) simp
      have pos1: "pos s1 = pos s + CHUNKSIZE" and reads1: "reads s1 = Suc (reads s)"
        and buf1: "buf s1 = buf s"
        using len by (simp_all add: s1_def read_stream flip: chunk)
      have "pos r = min (length (buf s1)) (pos s1 + CHUNKSIZE * (idx1 div CHUNKSIZE + 1))
        \<and> reads r = reads s1 + idx1 div CHUNKSIZE + 1"
        unfolding r_def idx1_def s1_def chunk_def using notin False mem
        by (intro "1.IH" [OF refl refl refl]) (simp_all add: chunk_def s1_def bytes_find_nonneg)
      then have "pos r = min (length (buf s)) (pos s + CHUNKSIZE * (?idx div CHUNKSIZE + 1))
        \<and> reads r = reads s + ?idx div CHUNKSIZE + 1"
        unfolding idx div pos1 reads1 buf1 by (simp add: algebra_simps)
      then show ?thesis
        by (simp only: cstring_loop_more [OF chunk_def notin False] r_def s1_def)
    qed
  qed
qed

text \<open>
  Claim C6. \<open>parse_cstring_from_stream\<close> returns the bytes strictly before the first
  null byte at or after the starting position, without the terminator, and \<open>None\<close> when
  there is no null byte there. So a null byte at the very start gives the empty byte
  sequence (and not \<open>None\<close>), no null byte gives \<open>None\<close> (and not the empty sequence), and
  a null byte after any number of other bytes \<open>ys\<close> is found, whichever chunk it falls in.
\<close>

theorem parse_cstring_boundary_cases:
  "fst (parse_cstring_from_stream strm stream_pos) =
     (if 0 \<in> set (rest (start_at strm stream_pos))
      then Some (takeWhile (\<lambda>x. x \<noteq> 0) (rest (start_at strm stream_pos))) else None)
   \<and> (rest (start_at strm stream_pos) = 0 # zs \<longrightarrow>
        fst (parse_cstring_from_stream strm stream_pos) = Some [])
   \<and> (0 \<notin> set (rest (start_at strm stream_pos)) \<longrightarrow>
        fst (parse_cstring_from_stream strm stream_pos) = None)
   \<and> (rest (start_at strm stream_pos) = ys @ 0 # zs' \<and> 0 \<notin> set ys \<longrightarrow>
        fst (parse_cstring_from_stream strm stream_pos) = Some ys)"
proof -
  have "takeWhile (\<lambda>x. x \<noteq> 0) (ys @ 0 # zs') = ys" if "0 \<notin> set ys"
    using that by (induction ys) auto
  then show ?thesis
    by (auto simp: parse_cstring_from_stream_def cstring_loop_result)
qed

theorem parse_cstring_boundary_cases_witness:
  "fst (parse_cstring_from_stream (stream_of [0, 5, 0]) None) = Some []
   \<and> fst (parse_cstring_from_stream (stream_of [7, 0, 5, 6]) (Some 2)) = None
   \<and> fst (parse_cstring_from_stream (stream_of (replicate 63 1 @ [0, 9])) None) = Some (replicate 63 1)
   \<and> fst (parse_cstring_from_stream (stream_of (replicate 64 1 @ [0, 9])) None) = Some (replicate 64 1)"
proof -
  have "fst (parse_cstring_from_stream (stream_of [0, 5, 0]) None) = Some []"
    using parse_cstring_boundary_cases [where strm = "stream_of [0, 5, 0]" and stream_pos = None
        and zs = "[5, 0]" and ys = "[]" and zs' = "[5, 0]"]
    by (simp add: stream_of_def)
  moreover have "fst (parse_cstring_from_stream (stream_of [7, 0, 5, 6]) (Some 2)) = None"
    using parse_cstring_boundary_cases [where strm = "stream_of [7, 0, 5, 6]" and stream_pos = "Some 2"
        and zs = "[]" and ys = "[]" and zs' = "[]"]
    by (simp add: stream_of_def seek_def)
  moreover have "fst (parse_cstring_from_stream (stream_of (replicate 63 1 @ [0, 9])) None)
      = Some (replicate 63 1)"
    using parse_cstring_boundary_cases [where strm = "stream_of (replicate 63 1 @ [0, 9])"
        and stream_pos = None and ys = "replicate 63 1" and zs' = "[9]" and zs = "[]",
        THEN conjunct2, THEN conjunct2, THEN conjunct2]
    by (simp add: stream_of_def)
  moreover have "fst (parse_cstring_from_stream (stream_of (replicate 64 1 @ [0, 9])) None)
      = Some (replicate 64 1)"
    using parse_cstring_boundary_cases [where strm = "stream_of (replicate 64 1 @ [0, 9])"
        and stream_pos = None and ys = "replicate 64 1" and zs' = "[9]" and zs = "[]",
        THEN conjunct2, THEN conjunct2, THEN conjunct2]
    by (simp add: stream_of_def)
  ultimately show ?thesis by simp
qed

text \<open>The end of the chunk that holds index \<open>idx\<close>, against the index itself.\<close>

lemma chunk_end_ge: "idx + 1 \<le> CHUNKSIZE * (idx div CHUNKSIZE + 1)" for idx :: nat
  by (simp add: CHUNKSIZE_def dividend_less_times_div Suc_leI)

lemma chunk_end_eq: "CHUNKSIZE * (idx div CHUNKSIZE + 1) = idx + 1 \<longleftrightarrow> (idx + 1) mod CHUNKSIZE = 0" for idx :: nat
proof -
  define q where "q = idx div 64"
  define r where "r = idx mod 64"
  have idx: "idx = 64 * q + r" and r: "r < 64" by (simp_all add: q_def r_def)
  have "(idx + 1) mod 64 = (r + 1) mod 64"
    unfolding idx by (simp add: mod_Suc)
  also have "\<dots> = (if r = 63 then 0 else r + 1)"
    using r by auto
  finally have "(idx + 1) mod 64 = 0 \<longleftrightarrow> r = 63" by simp
  moreover have "64 * (q + 1) = idx + 1 \<longleftrightarrow> r = 63"
    unfolding idx by auto
  ultimately show ?thesis unfolding q_def CHUNKSIZE_def by simp
qed

text \<open>
  Claim C10, as stated, fails. It says that the stream is left at the end of the last
  chunk read and not immediately after the terminator. Here the terminator is the 64th
  byte from the start (index 63), the last byte of the first chunk: the stream is left
  at 64, which is the end of that chunk and also the byte right after the terminator.
\<close>

theorem parse_cstring_stream_position_counterexample:
  "(replicate 63 1 @ [0, 9, 9 :: byte]) ! 63 = 0
   \<and> fst (parse_cstring_from_stream (stream_of (replicate 63 1 @ [0, 9, 9])) None) = Some (replicate 63 1)
   \<and> pos (snd (parse_cstring_from_stream (stream_of (replicate 63 1 @ [0, 9, 9])) None)) = 64"
proof -
  let ?s = "stream_of (replicate 63 1 @ [0, 9, 9])"
  have tw: "takeWhile (\<lambda>x. x \<noteq> 0) (replicate 63 1 @ [0, 9, 9 :: byte]) = replicate 63 1"
    by (subst takeWhile_append2) simp_all
  have rest: "rest ?s = replicate 63 1 @ [0, 9, 9]"
    by (simp add: stream_of_def)
  have found: "0 \<in> set (rest ?s)"
    unfolding rest by simp
  have "pos (snd (cstring_loop [] ?s)) = 64"
    using cstring_loop_pos_reads [OF found, of "[]"] unfolding rest tw
    by (simp add: stream_of_def CHUNKSIZE_def)
  moreover have "fst (cstring_loop [] ?s) = Some (replicate 63 1)"
    using found unfolding cstring_loop_result rest tw by simp
  moreover have "(replicate 63 1 @ [0, 9, 9 :: byte]) ! 63 = 0"
    by (simp add: nth_append)
  ultimately show ?thesis by (simp add: parse_cstring_from_stream_def)
qed

text \<open>
  Claim C10, amended. When \<open>parse_cstring_from_stream\<close> finds a null byte, \<open>idx\<close> bytes
  after the starting position, it returns those \<open>idx\<close> bytes and leaves the stream at
  the end of the last chunk it read: \<open>idx div 64 + 1\<close> reads of (at most) 64 bytes after
  the start, or the end of the stream if that comes first. This is at or after the byte
  following the terminator, and the bytes in between are consumed. The two positions
  are the same exactly when the terminator is the last byte of that chunk or of the
  stream.
\<close>

theorem parse_cstring_stream_position:
  assumes "0 \<in> set (rest (start_at strm stream_pos))"
  shows "let start = pos (start_at strm stream_pos);
             idx = length (takeWhile (\<lambda>x. x \<noteq> 0) (rest (start_at strm stream_pos)));
             strm' = snd (parse_cstring_from_stream strm stream_pos)
         in fst (parse_cstring_from_stream strm stream_pos) = Some (take idx (drop start (buf strm)))
            \<and> buf strm' = buf strm
            \<and> pos strm' = min (length (buf strm)) (start + CHUNKSIZE * (idx div CHUNKSIZE + 1))
            \<and> reads strm' = reads strm + idx div CHUNKSIZE + 1
            \<and> start + idx + 1 \<le> pos strm'
            \<and> (pos strm' = start + idx + 1 \<longleftrightarrow>
                 (idx + 1) mod CHUNKSIZE = 0 \<or> start + idx + 1 = length (buf strm))"
proof -
  define s0 where "s0 = start_at strm stream_pos"
  define idx where "idx = length (takeWhile (\<lambda>x. x \<noteq> 0) (rest s0))"
  define strm' where "strm' = snd (cstring_loop [] s0)"
  have buf0: "buf s0 = buf strm" and reads0: "reads s0 = reads strm"
    by (simp_all add: s0_def seek_def split: option.splits)
  from assms have mem: "0 \<in> set (rest s0)" by (simp add: s0_def)
  have res: "fst (cstring_loop [] s0) = Some (take idx (rest s0))"
    using mem by (simp add: cstring_loop_result idx_def takeWhile_eq_take [symmetric])
  have frame: "buf strm' = buf strm"
    by (simp add: strm'_def cstring_loop_frame buf0)
  have posr: "pos strm' = min (length (buf strm)) (pos s0 + CHUNKSIZE * (idx div CHUNKSIZE + 1))"
    and readsr: "reads strm' = reads strm + idx div CHUNKSIZE + 1"
    using cstring_loop_pos_reads [OF mem, of "[]"]
    by (simp_all add: strm'_def idx_def buf0 reads0)
  have "idx < length (rest s0)"
    unfolding idx_def using mem by (rule length_takeWhile_less)
  then have inside: "pos s0 + idx + 1 \<le> length (buf strm)"
    by (simp add: buf0)
  have le: "pos s0 + idx + 1 \<le> pos strm'"
    using inside chunk_end_ge [of idx] unfolding posr by simp
  have iff: "pos strm' = pos s0 + idx + 1 \<longleftrightarrow>
      (idx + 1) mod CHUNKSIZE = 0 \<or> pos s0 + idx + 1 = length (buf strm)"
    using inside chunk_end_ge [of idx] unfolding posr chunk_end_eq [of idx, symmetric]
    by (auto simp: min_def)
  from res frame posr readsr le iff show ?thesis
    unfolding Let_def parse_cstring_from_stream_def s0_def [symmetric] idx_def [symmetric]
      strm'_def [symmetric]
    by (simp add: buf0)
qed

theorem parse_cstring_stream_position_witness:
  "0 \<in> set (rest (start_at (stream_of ([1, 2, 0] @ replicate 100 7)) None))
   \<and> fst (parse_cstring_from_stream (stream_of ([1, 2, 0] @ replicate 100 7)) None) = Some [1, 2]
   \<and> pos (snd (parse_cstring_from_stream (stream_of ([1, 2, 0] @ replicate 100 7)) None)) = 64
   \<and> reads (snd (parse_cstring_from_stream (stream_of ([1, 2, 0] @ replicate 100 7)) None)) = 1"
proof -
  have found: "0 \<in> set (rest (start_at (stream_of ([1, 2, 0] @ replicate 100 7)) None))"
    by (simp add: stream_of_def)
  from parse_cstring_stream_position [OF found] found show ?thesis
    by (simp add: Let_def stream_of_def CHUNKSIZE_def)
qed

section \<open>Properties of roundup\<close>

lemma or_mask_int: "(x::int) OR mask n = x - x mod 2 ^ n + (2 ^ n - 1)"
proof -
  have "x OR mask n = push_bit n (drop_bit n x) OR mask n"
    by (rule bit_eqI) (auto simp: bit_simps)
  also have "\<dots> = push_bit n (drop_bit n x) + mask n"
    by (rule disjunctive_add [symmetric]) (auto simp: bit_simps)
  also have "\<dots> = x - x mod 2 ^ n + (2 ^ n - 1)"
    by (simp add: push_bit_eq_mult drop_bit_eq_div mask_eq_exp_minus_1 minus_mod_eq_div_mult [symmetric] algebra_simps)
  finally show ?thesis .
qed

lemma roundup_eq: "roundup num bits = (num - 1) - (num - 1) mod 2 ^ bits + 2 ^ bits"
  using or_mask_int [of "num - 1" bits]
  by (simp add: roundup_def mask_eq_exp_minus_1)

lemma roundup_dvd: "2 ^ bits dvd roundup num bits"
proof -
  have "roundup num bits = ((num - 1) div 2 ^ bits + 1) * 2 ^ bits"
    by (simp add: roundup_eq minus_mod_eq_div_mult algebra_simps)
  then show ?thesis by simp
qed

lemma roundup_ge: "num \<le> roundup num bits"
proof -
  have "(num - 1) mod 2 ^ bits < (2::int) ^ bits"
    by (rule pos_mod_bound) simp
  then show ?thesis unfolding roundup_eq by linarith
qed

lemma roundup_lt: "roundup num bits < num + 2 ^ bits"
proof -
  have "0 \<le> (num - 1) mod (2::int) ^ bits"
    by (rule pos_mod_sign) simp
  then show ?thesis unfolding roundup_eq by linarith
qed

lemma roundup_least:
  assumes "2 ^ bits dvd m" and "num \<le> m"
  shows "roundup num bits \<le> m"
proof (rule ccontr)
  assume "\<not> roundup num bits \<le> m"
  then have lt: "m < roundup num bits" by simp
  from assms(1) roundup_dvd [of bits num]
  have "2 ^ bits dvd (roundup num bits - m)" by (rule dvd_diff [rotated])
  moreover from lt have "0 < roundup num bits - m" by simp
  ultimately have "2 ^ bits \<le> roundup num bits - m"
    by (rule zdvd_imp_le)
  with roundup_lt [of num bits] assms(2) show False by simp
qed

text \<open>
  Claim C8. For every integer \<open>num\<close> (the non-negative ones among them) and every
  \<open>bits\<close>, \<open>roundup num bits\<close> is the least multiple of \<open>2 ^ bits\<close> that is
  greater than or equal to \<open>num\<close>, its \<open>bits\<close> least significant bits are 0, and
  \<open>roundup 0 3 = 0\<close>, \<open>roundup 1 3 = 8\<close>, \<open>roundup 8 3 = 8\<close>, \<open>roundup 9 3 = 16\<close>.
\<close>

theorem roundup_least_multiple:
  "2 ^ bits dvd roundup num bits \<and> num \<le> roundup num bits
   \<and> (\<forall>m. 2 ^ bits dvd m \<and> num \<le> m \<longrightarrow> roundup num bits \<le> m)
   \<and> take_bit bits (roundup num bits) = 0
   \<and> roundup 0 3 = 0 \<and> roundup 1 3 = 8 \<and> roundup 8 3 = 8 \<and> roundup 9 3 = 16"
proof -
  have "take_bit bits (roundup num bits) = 0"
    using roundup_dvd [of bits num] by (simp add: take_bit_eq_mod)
  moreover have "roundup 0 3 = 0 \<and> roundup 1 3 = 8 \<and> roundup 8 3 = 8 \<and> roundup 9 3 = 16"
    by (simp add: roundup_def)
  ultimately show ?thesis
    using roundup_dvd [of bits num] roundup_ge [of num bits] roundup_least [of bits _ num]
    by blast
qed

theorem roundup_least_multiple_witness:
  "2 ^ 3 dvd (24::int) \<and> (9::int) \<le> 24 \<and> roundup 9 3 \<le> 24 \<and> roundup 9 3 = 16"
  using roundup_least_multiple [of 3 9] by simp

section \<open>Properties of lazy\<close>

lemma accesses_stored:
  "dict obj name = Some val \<Longrightarrow> accesses name descr obj n = (replicate n (Inr val), obj)"
  by (induction n) (simp_all add: getattr_lazy_def)

lemma lazy_get_calls: "getter_calls (snd (lazy_get descr obj)) = Suc (getter_calls obj)"
  by (simp add: lazy_get_def Let_def split: sum.splits)

lemma lazy_get_returned:
  "lazy_get descr obj = (Inr val, obj1) \<Longrightarrow> dict obj1 (getter_name descr) = Some val"
  by (auto simp: lazy_get_def Let_def split: sum.splits)

lemma getattr_lazy_returned:
  "getattr_lazy (getter_name descr) descr obj = (Inr val, obj1) \<Longrightarrow>
     dict obj1 (getter_name descr) = Some val"
  by (auto simp: getattr_lazy_def split: option.splits dest: lazy_get_returned)

text \<open>
  Claim C7, as stated, fails. It says that on every instance the wrapped function is
  invoked at most once. The value is stored under the function's own name, which need
  not be the name the attribute is read under: for \<^verbatim>\<open>@lazy def __x(self)\<close> in
  a class \<^verbatim>\<open>A\<close> the attribute is \<^verbatim>\<open>_A__x\<close>, the stored value is never found,
  and three accesses invoke the function three times and return 42, 43 and 44. And a
  function that raises leaves nothing stored, so the next access invokes it again: two
  accesses, two invocations.
\<close>

theorem lazy_recomputed_counterexample:
  "fst (accesses ''_A__x'' lazy_private fresh_object 3) = [Inr 42, Inr 43, Inr 44]
   \<and> getter_calls (snd (accesses ''_A__x'' lazy_private fresh_object 3)) = 3
   \<and> fst (accesses ''value'' lazy_failing fresh_object 2) =
       [Inl (OtherError ''fail''), Inl (OtherError ''fail'')]
   \<and> getter_calls (snd (accesses ''value'' lazy_failing fresh_object 2)) = 2"
  by (simp add: numeral_3_eq_3 numeral_2_eq_2 getattr_lazy_def lazy_get_def Let_def
      fresh_object_def lazy_private_def lazy_failing_def counting_getter_def failing_getter_def)

text \<open>
  Claim C7, amended. An access invokes the wrapped function at most once. On an instance
  that does not hold the attribute yet, the access invokes it: when it returns, the
  value is stored in the instance's \<^verbatim>\<open>__dict__\<close> under the function's name and
  returned; when it raises, the exception goes to the caller and nothing is stored.
  For an attribute that is read under the function's own name, as a plain
  \<^verbatim>\<open>@lazy\<close> decoration binds it: once an access has returned a value, every later
  access on the same instance returns that value and leaves the instance as it is, with
  no further invocation; so a function that always returns is invoked at most once per
  instance, over any number of accesses.
\<close>

theorem lazy_computed_once:
  "getter_calls (snd (getattr_lazy name descr obj)) \<le> Suc (getter_calls obj)
   \<and> (dict obj name = None \<and> getter descr (dict obj) = (Inr val, d1) \<longrightarrow>
        getattr_lazy name descr obj =
          (Inr val, \<lparr>dict = d1(getter_name descr \<mapsto> val), getter_calls = Suc (getter_calls obj)\<rparr>))
   \<and> (dict obj name = None \<and> getter descr (dict obj) = (Inl e, d1) \<longrightarrow>
        getattr_lazy name descr obj =
          (Inl e, \<lparr>dict = d1, getter_calls = Suc (getter_calls obj)\<rparr>))
   \<and> (name = getter_name descr \<longrightarrow>
        (getattr_lazy name descr obj = (Inr val, obj1) \<longrightarrow>
           accesses name descr obj1 n = (replicate n (Inr val), obj1))
        \<and> ((\<forall>d. \<exists>v d'. getter descr d = (Inr v, d')) \<longrightarrow>
             getter_calls (snd (accesses name descr obj n)) \<le> Suc (getter_calls obj)))"
proof -
  have one: "getter_calls (snd (getattr_lazy name descr obj)) \<le> Suc (getter_calls obj)"
    by (simp add: getattr_lazy_def lazy_get_calls split: option.splits)
  have store: "getattr_lazy name descr obj =
      (Inr val, \<lparr>dict = d1(getter_name descr \<mapsto> val), getter_calls = Suc (getter_calls obj)\<rparr>)"
    if "dict obj name = None" and "getter descr (dict obj) = (Inr val, d1)"
    using that by (simp add: getattr_lazy_def lazy_get_def Let_def)
  have raise: "getattr_lazy name descr obj =
      (Inl e, \<lparr>dict = d1, getter_calls = Suc (getter_calls obj)\<rparr>)"
    if "dict obj name = None" and "getter descr (dict obj) = (Inl e, d1)"
    using that by (simp add: getattr_lazy_def lazy_get_def Let_def)
  have later: "accesses name descr obj1 n = (replicate n (Inr val), obj1)"
    if "name = getter_name descr" and "getattr_lazy name descr obj = (Inr val, obj1)"
    for val obj1 n
    using that by (auto intro: accesses_stored dest: getattr_lazy_returned)
  have once: "getter_calls (snd (accesses name descr obj n)) \<le> Suc (getter_calls obj)"
    if name: "name = getter_name descr" and total: "\<forall>d. \<exists>v d'. getter descr d = (Inr v, d')"
  proof (cases n)
    case 0
    then show ?thesis by simp
  next
    case (Suc m)
    from total obtain v d' where "getter descr (dict obj) = (Inr v, d')" by blast
    then obtain val obj1 where first: "getattr_lazy name descr obj = (Inr val, obj1)"
      by (cases "dict obj name") (simp_all add: getattr_lazy_def lazy_get_def Let_def)
    with name have "accesses name descr obj1 m = (replicate m (Inr val), obj1)"
      by (rule later)
    with first Suc have "snd (accesses name descr obj n) = snd (getattr_lazy name descr obj)"
      by simp
    with one show ?thesis by simp
  qed
  from one store raise later once show ?thesis by blast
qed

theorem lazy_computed_once_witness:
  "accesses ''value'' lazy_value fresh_object 3 =
     ([Inr 42, Inr 42, Inr 42], \<lparr>dict = [''n'' \<mapsto> 1, ''value'' \<mapsto> 42], getter_calls = 1\<rparr>)
   \<and> getattr_lazy ''value'' lazy_value fresh_object =
     (Inr 42, \<lparr>dict = [''n'' \<mapsto> 1, ''value'' \<mapsto> 42], getter_calls = 1\<rparr>)
   \<and> getattr_lazy ''value'' lazy_failing fresh_object =
     (Inl (OtherError ''fail''), \<lparr>dict = Map.empty, getter_calls = 1\<rparr>)"
proof -
  have first: "dict fresh_object ''value'' = None
      \<and> getter lazy_value (dict fresh_object) = (Inr 42, [''n'' \<mapsto> 1])"
    by (simp add: fresh_object_def lazy_value_def counting_getter_def)
  have failing: "dict fresh_object ''value'' = None
      \<and> getter lazy_failing (dict fresh_object) = (Inl (OtherError ''fail''), Map.empty)"
    by (simp add: fresh_object_def lazy_failing_def failing_getter_def)
  have name: "''value'' = getter_name lazy_value" "''value'' = getter_name lazy_failing"
    by (simp_all add: lazy_value_def lazy_failing_def)
  note a = lazy_computed_once [where name = "''value''" and descr = lazy_value and obj = fresh_object
      and val = 42 and ?d1.0 = "[''n'' \<mapsto> 1]"
      and ?obj1.0 = "\<lparr>dict = [''n'' \<mapsto> 1, ''value'' \<mapsto> 42], getter_calls = 1\<rparr>" and n = 2]
  note b = lazy_computed_once [where name = "''value''" and descr = lazy_failing and obj = fresh_object
      and e = "OtherError ''fail''" and ?d1.0 = "Map.empty"]
  from a first name have call: "getattr_lazy ''value'' lazy_value fresh_object =
     (Inr 42, \<lparr>dict = [''n'' \<mapsto> 1, ''value'' \<mapsto> 42], getter_calls = 1\<rparr>)"
    by (simp add: fresh_object_def)
  with a name have "accesses ''value'' lazy_value
       \<lparr>dict = [''n'' \<mapsto> 1, ''value'' \<mapsto> 42], getter_calls = 1\<rparr> 2 =
     (replicate 2 (Inr 42), \<lparr>dict = [''n'' \<mapsto> 1, ''value'' \<mapsto> 42], getter_calls = 1\<rparr>)"
    by blast
  with call have "accesses ''value'' lazy_value fresh_object 3 =
     ([Inr 42, Inr 42, Inr 42], \<lparr>dict = [''n'' \<mapsto> 1, ''value'' \<mapsto> 42], getter_calls = 1\<rparr>)"
    by (simp add: numeral_3_eq_3 numeral_2_eq_2)
  moreover from b failing name have "getattr_lazy ''value'' lazy_failing fresh_object =
     (Inl (OtherError ''fail''), \<lparr>dict = Map.empty, getter_calls = 1\<rparr>)"
    by (simp add: fresh_object_def)
  ultimately show ?thesis using call by simp
qed

section \<open>Properties of the abbreviation table\<close>

subsection \<open>One step of the parser\<close>

lemma struct_parse_raised:
  "struct_parse struct s stream_pos = (Inl e, s1) \<Longrightarrow>
     (\<forall>m. e \<noteq> ConstructError m)
     \<and> ((\<forall>s e s1. struct s = (Inl e, s1) \<longrightarrow> (\<exists>m. e = ConstructError m)) \<longrightarrow> (\<exists>m. e = ELFParseError m))"
  by (auto simp: struct_parse_def Let_def split: prod.splits sum.splits exn.splits)

lemma parser_iteration_result:
  "parser_iteration off self = (r, self1) \<Longrightarrow>
     abbrev_map self1 = abbrev_map self \<and> structs self1 = structs self \<and> offset self1 = offset self
     \<and> (case r of
           Yield d \<Rightarrow> code d \<noteq> 0 \<and> parser_state self1 = Suspended (tell (stream self1))
         | StopIteration \<Rightarrow> parser_state self1 = Finished
         | Raise e \<Rightarrow>
             parser_state self1 = Finished \<and> (\<forall>m. e \<noteq> ConstructError m)
             \<and> (construct_errors (structs self) \<longrightarrow> (\<exists>m. e = ELFParseError m)))"
proof -
  assume run: "parser_iteration off self = (r, self1)"
  obtain r1 s1 where
    code: "struct_parse (Dwarf_uleb128 (structs self)) (seek off (stream self)) None = (r1, s1)"
    by (cases "struct_parse (Dwarf_uleb128 (structs self)) (seek off (stream self)) None")
  show ?thesis
  proof (cases r1)
    case (Inl e)
    with run code have "r = Raise e" and "self1 = self\<lparr>stream := s1, parser_state := Finished\<rparr>"
      by (simp_all add: parser_iteration_def)
    with struct_parse_raised [OF code [unfolded Inl]] show ?thesis
      by (simp add: construct_errors_def)
  next
    case (Inr decl_code)
    show ?thesis
    proof (cases "decl_code = 0")
      case True
      with run code Inr show ?thesis by (auto simp: parser_iteration_def)
    next
      case False
      obtain r2 s2 where
        body: "struct_parse (Dwarf_abbrev_declaration (structs self)) s1 None = (r2, s2)"
        by (cases "struct_parse (Dwarf_abbrev_declaration (structs self)) s1 None")
      show ?thesis
      proof (cases r2)
        case (Inl e)
        with run code Inr False body
        have "r = Raise e" and "self1 = self\<lparr>stream := s2, parser_state := Finished\<rparr>"
          by (simp_all add: parser_iteration_def)
        with struct_parse_raised [OF body [unfolded Inl]] show ?thesis
          by (simp add: construct_errors_def)
      next
        case (Inr parsed)
        with run code \<open>r1 = Inr decl_code\<close> False body show ?thesis
          by (auto simp: parser_iteration_def)
      qed
    qed
  qed
qed

lemma next_finished:
  "parser_state self = Finished \<Longrightarrow> abbrev_table_parser_next self = (StopIteration, self)"
  by (simp add: abbrev_table_parser_next_def)

lemma next_result:
  "abbrev_table_parser_next self = (r, self1) \<Longrightarrow>
     abbrev_map self1 = abbrev_map self \<and> structs self1 = structs self \<and> offset self1 = offset self
     \<and> (case r of
           Yield d \<Rightarrow> code d \<noteq> 0 \<and> parser_state self1 = Suspended (tell (stream self1))
         | StopIteration \<Rightarrow> parser_state self1 = Finished
         | Raise e \<Rightarrow>
             parser_state self1 = Finished \<and> (\<forall>m. e \<noteq> ConstructError m)
             \<and> (construct_errors (structs self) \<longrightarrow> (\<exists>m. e = ELFParseError m)))"
  by (cases "parser_state self")
     (auto simp: abbrev_table_parser_next_def dest: parser_iteration_result)

lemma next_frame:
  "abbrev_table_parser_next self = (r, self1) \<Longrightarrow>
     abbrev_map self1 = abbrev_map self \<and> structs self1 = structs self \<and> offset self1 = offset self"
  by (drule next_result) simp

lemma next_stop:
  "abbrev_table_parser_next self = (StopIteration, self1) \<Longrightarrow> parser_state self1 = Finished"
  by (drule next_result) simp

lemma next_raise:
  "abbrev_table_parser_next self = (Raise e, self1) \<Longrightarrow> parser_state self1 = Finished"
  by (drule next_result) simp

lemma next_yield:
  "abbrev_table_parser_next self = (Yield d, self1) \<Longrightarrow>
     code d \<noteq> 0 \<and> parser_state self1 = Suspended (tell (stream self1))"
  by (drule next_result) simp

text \<open>
  The parser seeks to its own offset first: where the stream stands when it is resumed
  makes no difference.
\<close>

lemma parser_iteration_moved:
  "parser_iteration off (moved p self) = parser_iteration off self"
  by (auto simp: parser_iteration_def seek_def split: prod.splits sum.splits)

lemma next_moved:
  "parser_state self \<noteq> Finished \<Longrightarrow>
     abbrev_table_parser_next (moved p self) = abbrev_table_parser_next self"
  by (cases "parser_state self")
     (simp_all add: abbrev_table_parser_next_def parser_iteration_moved)

text \<open>
  One step of the parser, read off the layouts: it decodes at its cursor, wherever the
  stream stands.
\<close>

lemma next_at_cursor:
  "cursor self = Some q \<Longrightarrow> abbrev_table_parser_next self = parser_iteration q self"
  by (cases "parser_state self") (simp_all add: cursor_def abbrev_table_parser_next_def)

lemma next_entry:
  assumes "cursor self = Some q"
    and "Dwarf_uleb128 (structs self) (seek q (stream self)) = (Inr c, s1)" and "c \<noteq> 0"
    and "Dwarf_abbrev_declaration (structs self) s1 = (Inr b, s2)"
  shows "abbrev_table_parser_next self =
     (Yield \<lparr>code = c, decl = b\<rparr>, self\<lparr>stream := s2, parser_state := Suspended (tell s2)\<rparr>)"
  using assms(2-4)
  by (simp add: next_at_cursor [OF assms(1)] parser_iteration_def struct_parse_def)

lemma next_terminator:
  assumes "cursor self = Some q"
    and "Dwarf_uleb128 (structs self) (seek q (stream self)) = (Inr 0, s1)"
  shows "abbrev_table_parser_next self = (StopIteration, self\<lparr>stream := s1, parser_state := Finished\<rparr>)"
  using assms(2)
  by (simp add: next_at_cursor [OF assms(1)] parser_iteration_def struct_parse_def)

lemma next_code_raises:
  assumes "cursor self = Some q"
    and "Dwarf_uleb128 (structs self) (seek q (stream self)) = (Inl e, s1)"
  shows "abbrev_table_parser_next self =
     (Raise (reraised e), self\<lparr>stream := s1, parser_state := Finished\<rparr>)"
  using assms(2)
  by (cases e)
     (simp_all add: next_at_cursor [OF assms(1)] parser_iteration_def struct_parse_def reraised_def)

lemma next_body_raises:
  assumes "cursor self = Some q"
    and "Dwarf_uleb128 (structs self) (seek q (stream self)) = (Inr c, s1)" and "c \<noteq> 0"
    and "Dwarf_abbrev_declaration (structs self) s1 = (Inl e, s2)"
  shows "abbrev_table_parser_next self =
     (Raise (reraised e), self\<lparr>stream := s2, parser_state := Finished\<rparr>)"
  using assms(2-4)
  by (cases e)
     (simp_all add: next_at_cursor [OF assms(1)] parser_iteration_def struct_parse_def reraised_def)

subsection \<open>The loop of get_abbrev, one iteration at a time\<close>

lemma scan_raise:
  "abbrev_table_parser_next self = (Raise e, self1) \<Longrightarrow>
     get_abbrev_scan self c = Some (Inl e, self1)"
  by (subst get_abbrev_scan.simps) simp

lemma scan_stop:
  "abbrev_table_parser_next self = (StopIteration, self1) \<Longrightarrow>
     get_abbrev_scan self c = Some (Inl (KeyError c), self1)"
  by (subst get_abbrev_scan.simps) simp

lemma scan_found:
  "abbrev_table_parser_next self = (Yield d, self1) \<Longrightarrow> code d = c \<Longrightarrow>
     get_abbrev_scan self c = Some (Inr d, cached d self1)"
  by (subst get_abbrev_scan.simps) (simp add: Let_def)

lemma scan_other:
  "abbrev_table_parser_next self = (Yield d, self1) \<Longrightarrow> code d \<noteq> c \<Longrightarrow>
     get_abbrev_scan self c = get_abbrev_scan (cached d self1) c"
  by (subst get_abbrev_scan.simps) (simp add: Let_def)

lemma scan_moved:
  "parser_state self \<noteq> Finished \<Longrightarrow> get_abbrev_scan (moved p self) c = get_abbrev_scan self c"
  by (subst get_abbrev_scan.simps, subst (2) get_abbrev_scan.simps) (simp add: next_moved)

lemma scan_skips:
  "yields self ds = Some self1 \<Longrightarrow> \<forall>d \<in> set ds. code d \<noteq> c \<Longrightarrow>
     get_abbrev_scan self c = get_abbrev_scan self1 c"
proof (induction ds arbitrary: self)
  case Nil
  then show ?case by simp
next
  case (Cons d ds)
  from Cons.prems(1) obtain self' where
    step: "abbrev_table_parser_next self = (Yield d, self')"
    and rest: "yields (cached d self') ds = Some self1"
    by (auto split: prod.splits step.splits if_splits)
  from Cons.prems(2) have "code d \<noteq> c" by simp
  with step have "get_abbrev_scan self c = get_abbrev_scan (cached d self') c"
    by (rule scan_other)
  also from rest Cons.prems(2) have "\<dots> = get_abbrev_scan self1 c"
    by (intro Cons.IH) simp_all
  finally show ?case .
qed

lemma yields_append:
  "yields self (ds @ es) = (case yields self ds of None \<Rightarrow> None | Some self1 \<Rightarrow> yields self1 es)"
  by (induction ds arbitrary: self) (auto split: prod.splits step.splits)

subsection \<open>What a returning lookup leaves behind\<close>

lemma lookup_post_trans:
  assumes "abbrev_table_parser_next self = (Yield d, self1)"
    and "lookup_post (cached d self1) c y"
  shows "lookup_post self c y"
proof -
  from assms(1) have "abbrev_map self1 = abbrev_map self" "structs self1 = structs self" "code d \<noteq> 0"
    by (auto dest: next_result)
  with assms(2) show ?thesis
    by (auto simp: lookup_post_def split: sum.splits if_splits)
qed

lemma scan_post:
  assumes "get_abbrev_scan self c = Some y"
  shows "lookup_post self c y"
proof (rule get_abbrev_scan.raw_induct [where P = lookup_post, OF _ assms])
  fix f :: "'d AbbrevTable \<Rightarrow> int \<Rightarrow> ((exn + 'd AbbrevDecl) \<times> 'd AbbrevTable) option"
    and self c y
  assume IH: "\<And>self c y. f self c = Some y \<Longrightarrow> lookup_post self c y"
    and eq: "(case abbrev_table_parser_next self of
        (Yield d, self1) \<Rightarrow>
          let self2 = cached d self1
          in if code d = c then Some (Inr d, self2) else f self2 c
      | (StopIteration, self1) \<Rightarrow> Some (Inl (KeyError c), self1)
      | (Raise e, self1) \<Rightarrow> Some (Inl e, self1)) = Some y"
  obtain r self1 where step: "abbrev_table_parser_next self = (r, self1)"
    by (cases "abbrev_table_parser_next self")
  note res = next_result [OF step]
  show "lookup_post self c y"
  proof (cases r)
    case (Yield d)
    show ?thesis
    proof (cases "code d = c")
      case True
      with eq step Yield have "y = (Inr d, cached d self1)" by (simp add: Let_def)
      with res Yield True show ?thesis by (auto simp: lookup_post_def)
    next
      case False
      with eq step Yield have "f (cached d self1) c = Some y" by (simp add: Let_def)
      then have "lookup_post (cached d self1) c y" by (rule IH)
      with step [unfolded Yield] show ?thesis by (rule lookup_post_trans)
    qed
  next
    case StopIteration
    with eq step have "y = (Inl (KeyError c), self1)" by simp
    with res StopIteration show ?thesis by (simp add: lookup_post_def)
  next
    case (Raise e)
    with eq step have "y = (Inl e, self1)" by simp
    with res Raise show ?thesis by (simp add: lookup_post_def)
  qed
qed

lemma get_abbrev_post:
  assumes "get_abbrev self c = Some y"
  shows "lookup_post self c y"
proof (cases "abbrev_map self c")
  case None
  with assms have "get_abbrev_scan self c = Some y" by (simp add: get_abbrev_def)
  then show ?thesis by (rule scan_post)
next
  case (Some d)
  with assms have "y = (Inr d, self)" by (simp add: get_abbrev_def)
  with Some show ?thesis by (simp add: lookup_post_def)
qed

lemma get_abbrev_cached:
  "abbrev_map self c = Some d \<Longrightarrow> get_abbrev self c = Some (Inr d, self)"
  by (simp add: get_abbrev_def)

lemma get_abbrev_finished:
  assumes "parser_state self = Finished"
  shows "get_abbrev self c =
     Some (case abbrev_map self c of Some d \<Rightarrow> Inr d | None \<Rightarrow> Inl (KeyError c), self)"
  using assms by (auto simp: get_abbrev_def scan_stop next_finished split: option.splits)

lemma calls_finished:
  "parser_state self = Finished \<Longrightarrow> calls self cs = Some self"
  by (induction cs) (simp_all add: get_abbrev_finished)

lemma calls_post:
  "calls self cs = Some self1 \<Longrightarrow>
     structs self1 = structs self
     \<and> (\<forall>k. abbrev_map self k \<noteq> None \<longrightarrow> abbrev_map self1 k \<noteq> None)
     \<and> (abbrev_map self 0 = None \<longrightarrow> abbrev_map self1 0 = None)"
proof (induction cs arbitrary: self)
  case Nil
  then show ?case by simp
next
  case (Cons c cs)
  from Cons.prems obtain r self' where call: "get_abbrev self c = Some (r, self')"
    and rest: "calls self' cs = Some self1"
    by (auto split: option.splits)
  from call have "lookup_post self c (r, self')" by (rule get_abbrev_post)
  with Cons.IH [OF rest] show ?case by (simp add: lookup_post_def)
qed

subsection \<open>Lookups return when the layouts consume what they decode\<close>

lemma struct_parse_returned:
  "struct_parse struct s None = (Inr v, s1) \<Longrightarrow> struct s = (Inr v, s1)"
  by (auto simp: struct_parse_def split: prod.splits sum.splits exn.splits)

lemma parser_iteration_consumes:
  assumes "consuming (structs self)" and "parser_iteration off self = (Yield d, self1)"
  shows "buf (stream self1) = buf (stream self) \<and> off < tell (stream self1)
    \<and> tell (stream self1) \<le> length (buf (stream self))"
proof -
  from assms(2) obtain v s1 body s2 where
    code: "struct_parse (Dwarf_uleb128 (structs self)) (seek off (stream self)) None = (Inr v, s1)"
    and body: "struct_parse (Dwarf_abbrev_declaration (structs self)) s1 None = (Inr body, s2)"
    and self1: "stream self1 = s2"
    by (auto simp: parser_iteration_def split: prod.splits sum.splits if_splits)
  from code have "Dwarf_uleb128 (structs self) (seek off (stream self)) = (Inr v, s1)"
    by (rule struct_parse_returned)
  with assms(1) have 1: "buf s1 = buf (stream self) \<and> off < pos s1 \<and> pos s1 \<le> length (buf (stream self))"
    unfolding consuming_def by (fastforce simp: seek_def)
  from body have "Dwarf_abbrev_declaration (structs self) s1 = (Inr body, s2)"
    by (rule struct_parse_returned)
  with assms(1) have 2: "buf s2 = buf s1 \<and> pos s1 \<le> pos s2 \<and> pos s2 \<le> length (buf s1)"
    unfolding consuming_def by fastforce
  from 1 2 self1 show ?thesis by (simp add: tell_def)
qed

lemma next_decreases:
  assumes "consuming (structs self)" and "abbrev_table_parser_next self = (Yield d, self1)"
  shows "remaining (cached d self1) < remaining self"
proof -
  from assms(2) have susp: "parser_state self1 = Suspended (tell (stream self1))"
    by (auto dest: next_result)
  show ?thesis
  proof (cases "parser_state self")
    case Created
    with assms(2) have "parser_iteration (offset self) self = (Yield d, self1)"
      by (simp add: abbrev_table_parser_next_def)
    from parser_iteration_consumes [OF assms(1) this] susp Created show ?thesis
      by (auto simp: remaining_def)
  next
    case (Suspended off)
    with assms(2) have "parser_iteration off self = (Yield d, self1)"
      by (simp add: abbrev_table_parser_next_def)
    from parser_iteration_consumes [OF assms(1) this] susp Suspended show ?thesis
      by (auto simp: remaining_def)
  next
    case Finished
    with assms(2) show ?thesis by (simp add: abbrev_table_parser_next_def)
  qed
qed

lemma scan_returns:
  assumes "consuming (structs self)"
  shows "\<exists>y. get_abbrev_scan self c = Some y"
  using assms
proof (induction "remaining self" arbitrary: self rule: less_induct)
  case less
  obtain r self1 where step: "abbrev_table_parser_next self = (r, self1)"
    by (cases "abbrev_table_parser_next self")
  show ?case
  proof (cases r)
    case (Yield d)
    show ?thesis
    proof (cases "code d = c")
      case True
      with step Yield show ?thesis by (auto dest: scan_found)
    next
      case False
      from step Yield have "structs self1 = structs self" by (auto dest: next_result)
      with less.prems have "consuming (structs (cached d self1))" by simp
      moreover from less.prems step Yield have "remaining (cached d self1) < remaining self"
        by (intro next_decreases) simp_all
      ultimately have "\<exists>y. get_abbrev_scan (cached d self1) c = Some y"
        by (intro less.hyps)
      with step Yield False show ?thesis by (simp add: scan_other)
    qed
  next
    case StopIteration
    with step show ?thesis by (auto dest: scan_stop)
  next
    case (Raise e)
    with step show ?thesis by (auto dest: scan_raise)
  qed
qed

lemma get_abbrev_returns:
  "consuming (structs self) \<Longrightarrow> \<exists>y. get_abbrev self c = Some y"
  using scan_returns [of self c] by (cases "abbrev_map self c") (simp_all add: get_abbrev_def)

lemma calls_return:
  "consuming (structs self) \<Longrightarrow> \<exists>self1. calls self cs = Some self1"
proof (induction cs arbitrary: self)
  case Nil
  then show ?case by simp
next
  case (Cons c cs)
  from get_abbrev_returns [OF Cons.prems, of c]
  obtain r self' where call: "get_abbrev self c = Some (r, self')" by auto
  then have "structs self' = structs self"
    by (auto dest: get_abbrev_post simp: lookup_post_def)
  with Cons.prems have "consuming (structs self')" by simp
  from Cons.IH [OF this] call show ?case by simp
qed

subsection \<open>The layouts of this file consume what they decode\<close>

lemma read_one:
  assumes "fst (read 1 s) = b # bs"
  shows "pos s < length (buf s)" and "pos (snd (read 1 s)) = Suc (pos s)"
    and "buf (snd (read 1 s)) = buf s"
proof -
  from assms have "drop (pos s) (buf s) \<noteq> []"
    by (auto simp: read_def Let_def)
  then show "pos s < length (buf s)" by simp
  then show "pos (snd (read 1 s)) = Suc (pos s)"
    by (auto simp: read_def Let_def min_def)
  show "buf (snd (read 1 s)) = buf s"
    by (simp add: read_def Let_def)
qed

lemma ULEB128_progress:
  "ULEB128 s = (Inr v, s1) \<Longrightarrow> buf s1 = buf s \<and> pos s < pos s1 \<and> pos s1 \<le> length (buf s)"
  by (auto simp: ULEB128_def Let_def split: if_splits)

lemma UBInt8_progress:
  "UBInt8 s = (Inr v, s1) \<Longrightarrow> buf s1 = buf s \<and> pos s < pos s1 \<and> pos s1 \<le> length (buf s)"
  using read_one [of s]
  by (auto simp: UBInt8_def simp del: One_nat_def split: list.splits)

lemma attr_spec_loop_progress:
  "attr_spec_loop obj s = (Inr specs, s1) \<Longrightarrow>
     buf s1 = buf s \<and> pos s < pos s1 \<and> pos s1 \<le> length (buf s)"
proof (induction obj s rule: attr_spec_loop.induct)
  case (1 obj s)
  from "1.prems" obtain name sa form sb where
    a: "ULEB128 s = (Inr name, sa)" and b: "ULEB128 sa = (Inr form, sb)"
    by (subst (asm) attr_spec_loop.simps) (auto split: prod.splits sum.splits)
  from ULEB128_progress [OF a] ULEB128_progress [OF b]
  have sb: "buf sb = buf s \<and> pos s < pos sb \<and> pos sb \<le> length (buf s)" by simp
  show ?case
  proof (cases "name = 0 \<and> form = 0")
    case True
    with "1.prems" a b have "s1 = sb"
      by (subst (asm) attr_spec_loop.simps) simp
    with sb show ?thesis by simp
  next
    case False
    with "1.prems" a b have "attr_spec_loop (obj @ [(name, form)]) sb = (Inr specs, s1)"
      by (subst (asm) attr_spec_loop.simps) simp
    with "1.IH" [OF a [symmetric] refl b [symmetric] refl False]
    have "buf s1 = buf sb \<and> pos sb < pos s1 \<and> pos s1 \<le> length (buf sb)" by simp
    with sb show ?thesis by simp
  qed
qed

lemma abbrev_declaration_parse_progress:
  assumes "abbrev_declaration_parse s = (Inr d, s1)"
  shows "buf s1 = buf s \<and> pos s \<le> pos s1 \<and> pos s1 \<le> length (buf s)"
proof -
  from assms obtain t sa c sb specs where
    a: "ULEB128 s = (Inr t, sa)" and b: "UBInt8 sa = (Inr c, sb)"
    and c: "attr_spec_loop [] sb = (Inr specs, s1)"
    by (auto simp: abbrev_declaration_parse_def split: prod.splits sum.splits)
  from ULEB128_progress [OF a] UBInt8_progress [OF b] attr_spec_loop_progress [OF c]
  show ?thesis by simp
qed

lemma consuming_dwarf_structs: "consuming dwarf_structs"
  unfolding consuming_def dwarf_structs_def
  by (auto dest: ULEB128_progress abbrev_declaration_parse_progress)

subsection \<open>The layouts of this file raise the engine's error only\<close>

lemma ULEB128_raises: "ULEB128 s = (Inl e, s1) \<Longrightarrow> \<exists>m. e = ConstructError m"
  by (auto simp: ULEB128_def Let_def split: if_splits)

lemma UBInt8_raises: "UBInt8 s = (Inl e, s1) \<Longrightarrow> \<exists>m. e = ConstructError m"
  by (auto simp: UBInt8_def split: list.splits)

lemma attr_spec_loop_raises:
  "attr_spec_loop obj s = (Inl e, s1) \<Longrightarrow> \<exists>m. e = ConstructError m"
proof (induction obj s rule: attr_spec_loop.induct)
  case (1 obj s)
  obtain r1 sa where a: "ULEB128 s = (r1, sa)" by (cases "ULEB128 s")
  show ?case
  proof (cases r1)
    case (Inl e1)
    with "1.prems" a have "e = e1" by (subst (asm) attr_spec_loop.simps) simp
    with a Inl show ?thesis by (auto dest: ULEB128_raises)
  next
    case name: (Inr name)
    obtain r2 sb where b: "ULEB128 sa = (r2, sb)" by (cases "ULEB128 sa")
    show ?thesis
    proof (cases r2)
      case (Inl e2)
      with "1.prems" a name b have "e = e2" by (subst (asm) attr_spec_loop.simps) simp
      with b Inl show ?thesis by (auto dest: ULEB128_raises)
    next
      case form: (Inr form)
      show ?thesis
      proof (cases "name = 0 \<and> form = 0")
        case True
        with "1.prems" a name b form show ?thesis
          by (subst (asm) attr_spec_loop.simps) simp
      next
        case False
        with "1.prems" a name b form
        have "attr_spec_loop (obj @ [(name, form)]) sb = (Inl e, s1)"
          by (subst (asm) attr_spec_loop.simps) simp
        with "1.IH" [OF a [unfolded name, symmetric] refl b [unfolded form, symmetric] refl False]
        show ?thesis by simp
      qed
    qed
  qed
qed

lemma abbrev_declaration_parse_raises:
  "abbrev_declaration_parse s = (Inl e, s1) \<Longrightarrow> \<exists>m. e = ConstructError m"
  by (auto simp: abbrev_declaration_parse_def split: prod.splits sum.splits
      dest: ULEB128_raises UBInt8_raises attr_spec_loop_raises)

lemma construct_errors_dwarf_structs: "construct_errors dwarf_structs"
  unfolding construct_errors_def dwarf_structs_def
  by (auto dest: ULEB128_raises abbrev_declaration_parse_raises)

subsection \<open>The declarations a scan passes\<close>

lemma scan_not_found:
  assumes "yields self ds = Some self1" and "\<forall>d \<in> set ds. code d \<noteq> c"
    and "abbrev_table_parser_next self1 = (StopIteration, self2)"
  shows "get_abbrev_scan self c = Some (Inl (KeyError c), self2)"
  using scan_skips [OF assms(1,2)] scan_stop [OF assms(3)] by simp

lemma yields_map:
  "yields self ds = Some s \<Longrightarrow> \<forall>d \<in> set ds. code d \<noteq> c \<Longrightarrow> abbrev_map s c = abbrev_map self c"
proof (induction ds arbitrary: self)
  case Nil
  then show ?case by simp
next
  case (Cons d ds)
  from Cons.prems(1) obtain self' where
    step: "abbrev_table_parser_next self = (Yield d, self')"
    and rest: "yields (cached d self') ds = Some s"
    by (auto split: prod.splits step.splits if_splits)
  from rest Cons.prems(2) have "abbrev_map s c = abbrev_map (cached d self') c"
    by (intro Cons.IH) simp_all
  with step Cons.prems(2) show ?case by (auto dest: next_result)
qed

lemma yields_finished:
  "parser_state self = Finished \<Longrightarrow> yields self ds = Some s \<Longrightarrow> ds = []"
  by (cases ds) (simp_all add: next_finished)

lemma scan_trace_step:
  assumes "abbrev_table_parser_next self = (Yield d, self1)"
    and "scan_trace (cached d self1) c y"
  shows "scan_trace self c y"
proof -
  from assms(2) obtain ds s where "yields (cached d self1) ds = Some s"
    and "snd y = s \<or> abbrev_map (snd y) = abbrev_map s \<and> parser_state (snd y) = Finished"
    unfolding scan_trace_def by blast
  with assms(1) have "yields self (d # ds) = Some s" by simp
  with \<open>snd y = s \<or> _\<close> show ?thesis unfolding scan_trace_def by blast
qed

lemma scan_traced:
  assumes "get_abbrev_scan self c = Some y"
  shows "scan_trace self c y"
proof (rule get_abbrev_scan.raw_induct [where P = scan_trace, OF _ assms])
  fix f :: "'d AbbrevTable \<Rightarrow> int \<Rightarrow> ((exn + 'd AbbrevDecl) \<times> 'd AbbrevTable) option"
    and self c y
  assume IH: "\<And>self c y. f self c = Some y \<Longrightarrow> scan_trace self c y"
    and eq: "(case abbrev_table_parser_next self of
        (Yield d, self1) \<Rightarrow>
          let self2 = cached d self1
          in if code d = c then Some (Inr d, self2) else f self2 c
      | (StopIteration, self1) \<Rightarrow> Some (Inl (KeyError c), self1)
      | (Raise e, self1) \<Rightarrow> Some (Inl e, self1)) = Some y"
  obtain r self1 where step: "abbrev_table_parser_next self = (r, self1)"
    by (cases "abbrev_table_parser_next self")
  note res = next_result [OF step]
  have empty: "yields self [] = Some self" by simp
  show "scan_trace self c y"
  proof (cases r)
    case (Yield d)
    show ?thesis
    proof (cases "code d = c")
      case True
      with eq step Yield have "y = (Inr d, cached d self1)" by (simp add: Let_def)
      moreover from step Yield have "yields self [d] = Some (cached d self1)" by simp
      ultimately show ?thesis
        unfolding scan_trace_def
        by (intro exI [of _ "[d]"] exI [of _ "cached d self1"]) simp
    next
      case False
      with eq step Yield have "f (cached d self1) c = Some y" by (simp add: Let_def)
      then have "scan_trace (cached d self1) c y" by (rule IH)
      with step [unfolded Yield] show ?thesis by (rule scan_trace_step)
    qed
  next
    case StopIteration
    with eq step have "y = (Inl (KeyError c), self1)" by simp
    with res StopIteration show ?thesis
      unfolding scan_trace_def by (intro exI [of _ "[]"] exI [of _ self]) simp
  next
    case (Raise e)
    with eq step have "y = (Inl e, self1)" by simp
    with res Raise show ?thesis
      unfolding scan_trace_def by (intro exI [of _ "[]"] exI [of _ self]) simp
  qed
qed

lemma get_abbrev_keeps_entry:
  assumes "get_abbrev self k = Some (r, self1)" and "no_more c self"
  shows "abbrev_map self1 c = abbrev_map self c \<and> no_more c self1"
proof (cases "abbrev_map self k")
  case (Some d)
  with assms show ?thesis by (simp add: get_abbrev_def)
next
  case None
  with assms(1) have "get_abbrev_scan self k = Some (r, self1)" by (simp add: get_abbrev_def)
  then have "scan_trace self k (r, self1)" by (rule scan_traced)
  then obtain ds s where ys: "yields self ds = Some s"
    and s: "self1 = s \<or> abbrev_map self1 = abbrev_map s \<and> parser_state self1 = Finished"
    unfolding scan_trace_def by auto
  from assms(2) ys have codes: "\<forall>d \<in> set ds. code d \<noteq> c" unfolding no_more_def by blast
  with ys have "abbrev_map s c = abbrev_map self c" by (rule yields_map)
  with s have map: "abbrev_map self1 c = abbrev_map self c" by auto
  have "no_more c self1"
    unfolding no_more_def
  proof (intro allI impI)
    fix es x
    assume es: "yields self1 es = Some x"
    from s show "\<forall>d \<in> set es. code d \<noteq> c"
    proof
      assume "self1 = s"
      with ys es have "yields self (ds @ es) = Some x" by (simp add: yields_append)
      with assms(2) have "\<forall>d \<in> set (ds @ es). code d \<noteq> c" unfolding no_more_def by blast
      then show ?thesis by simp
    next
      assume "abbrev_map self1 = abbrev_map s \<and> parser_state self1 = Finished"
      with es have "es = []" by (auto dest: yields_finished)
      then show ?thesis by simp
    qed
  qed
  with map show ?thesis by simp
qed

lemma calls_keep_entry:
  "calls self cs = Some self1 \<Longrightarrow> no_more c self \<Longrightarrow> abbrev_map self1 c = abbrev_map self c"
proof (induction cs arbitrary: self)
  case Nil
  then show ?case by simp
next
  case (Cons k cs)
  from Cons.prems(1) obtain r self' where call: "get_abbrev self k = Some (r, self')"
    and rest: "calls self' cs = Some self1"
    by (auto split: option.splits)
  from get_abbrev_keeps_entry [OF call Cons.prems(2)] Cons.IH [OF rest]
  show ?case by simp
qed

subsection \<open>The declarations a table holds, and the parser\<close>

lemma entries_Cons:
  assumes "entries st q s (d # ds) = Some (q', s')"
  obtains s1 s2 where "Dwarf_uleb128 st (seek q s) = (Inr (code d), s1)" and "code d \<noteq> 0"
    and "Dwarf_abbrev_declaration st s1 = (Inr (decl d), s2)"
    and "entries st (tell s2) s2 ds = Some (q', s')"
proof -
  obtain r1 s1 where c: "Dwarf_uleb128 st (seek q s) = (r1, s1)"
    by (cases "Dwarf_uleb128 st (seek q s)")
  with assms obtain k where k: "r1 = Inr k" by (cases r1) simp_all
  obtain r2 s2 where b: "Dwarf_abbrev_declaration st s1 = (r2, s2)"
    by (cases "Dwarf_abbrev_declaration st s1")
  with assms c k obtain body where body: "r2 = Inr body" by (cases r2) simp_all
  from assms c k b body have "k \<noteq> 0 \<and> d = \<lparr>code = k, decl = body\<rparr>"
    and "entries st (tell s2) s2 ds = Some (q', s')"
    by (simp_all split: if_splits)
  with c k b body that [of s1 s2] show ?thesis by simp
qed

lemma yields_entries:
  assumes "cursor self = Some q" and "entries (structs self) q (stream self) ds = Some (q', s')"
  shows "\<exists>self1. yields self ds = Some self1 \<and> cursor self1 = Some q' \<and> stream self1 = s'
    \<and> structs self1 = structs self \<and> offset self1 = offset self
    \<and> abbrev_map self1 = stored ds (abbrev_map self)
    \<and> (ds \<noteq> [] \<longrightarrow> parser_state self1 = Suspended q')"
  using assms
proof (induction ds arbitrary: self q)
  case Nil
  then show ?case by simp
next
  case (Cons d ds)
  from Cons.prems(2) obtain s1 s2 where
    c: "Dwarf_uleb128 (structs self) (seek q (stream self)) = (Inr (code d), s1)" and nz: "code d \<noteq> 0"
    and b: "Dwarf_abbrev_declaration (structs self) s1 = (Inr (decl d), s2)"
    and rest: "entries (structs self) (tell s2) s2 ds = Some (q', s')"
    by (rule entries_Cons)
  let ?self' = "cached d (self\<lparr>stream := s2, parser_state := Suspended (tell s2)\<rparr>)"
  from next_entry [OF Cons.prems(1) c nz b]
  have step: "abbrev_table_parser_next self =
      (Yield d, self\<lparr>stream := s2, parser_state := Suspended (tell s2)\<rparr>)"
    by simp
  have "cursor ?self' = Some (tell s2)" by (simp add: cursor_def)
  moreover from rest have "entries (structs ?self') (tell s2) (stream ?self') ds = Some (q', s')"
    by simp
  ultimately obtain self1 where
    ys: "yields ?self' ds = Some self1" and cur: "cursor self1 = Some q'" and str: "stream self1 = s'"
    and frame: "structs self1 = structs ?self'" "offset self1 = offset ?self'"
    and map: "abbrev_map self1 = stored ds (abbrev_map ?self')"
    and state: "ds \<noteq> [] \<longrightarrow> parser_state self1 = Suspended q'"
    using Cons.IH by blast
  have "parser_state self1 = Suspended q'"
  proof (cases ds)
    case Nil
    with ys rest have "self1 = ?self'" and "q' = tell s2" by auto
    then show ?thesis by simp
  next
    case (Cons e es)
    with state show ?thesis by simp
  qed
  with step ys cur str frame map show ?case by simp
qed

lemma finished_table:
  fixes self self1 :: "'d AbbrevTable"
  assumes "stream self1 = s'" and "structs self1 = structs self" and "offset self1 = offset self"
    and "abbrev_map self1 = m"
  shows "self1\<lparr>stream := s'', parser_state := Finished\<rparr> =
     self\<lparr>stream := s'', parser_state := Finished, abbrev_map := m\<rparr>"
  using assms by (cases self, cases self1) simp

lemma table_eq:
  fixes self1 :: "'d AbbrevTable"
  assumes "structs self1 = st" and "stream self1 = s" and "offset self1 = off"
    and "parser_state self1 = g" and "abbrev_map self1 = m"
  shows "self1 = \<lparr>structs = st, stream = s, offset = off, parser_state = g, abbrev_map = m\<rparr>"
  using assms by (cases self1) simp

lemma cursor_fresh: "cursor (AbbrevTable_init st strm off) = Some off"
  by (simp add: cursor_def AbbrevTable_init_def)

lemma scan_to_terminator:
  assumes "cursor self = Some q" and "entries (structs self) q (stream self) ds = Some (q', s')"
    and "\<forall>d \<in> set ds. code d \<noteq> c"
    and "Dwarf_uleb128 (structs self) (seek q' s') = (Inr 0, s'')"
  shows "get_abbrev_scan self c = Some (Inl (KeyError c), exhausted ds s'' self)"
proof -
  from yields_entries [OF assms(1,2)] obtain self1 where
    ys: "yields self ds = Some self1" and cur: "cursor self1 = Some q'"
    and fields: "stream self1 = s'" "structs self1 = structs self" "offset self1 = offset self"
      "abbrev_map self1 = stored ds (abbrev_map self)"
    by blast
  from assms(4) fields have "Dwarf_uleb128 (structs self1) (seek q' (stream self1)) = (Inr 0, s'')"
    by simp
  with cur have "abbrev_table_parser_next self1 =
      (StopIteration, self1\<lparr>stream := s'', parser_state := Finished\<rparr>)"
    by (rule next_terminator)
  with ys assms(3) have "get_abbrev_scan self c =
      Some (Inl (KeyError c), self1\<lparr>stream := s'', parser_state := Finished\<rparr>)"
    by (rule scan_not_found)
  with finished_table [OF fields] show ?thesis by simp
qed

lemma scan_to_code_error:
  assumes "cursor self = Some q" and "entries (structs self) q (stream self) ds = Some (q', s')"
    and "\<forall>d \<in> set ds. code d \<noteq> c"
    and "Dwarf_uleb128 (structs self) (seek q' s') = (Inl e, s'')"
  shows "get_abbrev_scan self c = Some (Inl (reraised e), exhausted ds s'' self)"
proof -
  from yields_entries [OF assms(1,2)] obtain self1 where
    ys: "yields self ds = Some self1" and cur: "cursor self1 = Some q'"
    and fields: "stream self1 = s'" "structs self1 = structs self" "offset self1 = offset self"
      "abbrev_map self1 = stored ds (abbrev_map self)"
    by blast
  from assms(4) fields have "Dwarf_uleb128 (structs self1) (seek q' (stream self1)) = (Inl e, s'')"
    by simp
  with cur have "abbrev_table_parser_next self1 =
      (Raise (reraised e), self1\<lparr>stream := s'', parser_state := Finished\<rparr>)"
    by (rule next_code_raises)
  then have "get_abbrev_scan self1 c =
      Some (Inl (reraised e), self1\<lparr>stream := s'', parser_state := Finished\<rparr>)"
    by (rule scan_raise)
  with scan_skips [OF ys assms(3)] finished_table [OF fields] show ?thesis by simp
qed

lemma scan_to_body_error:
  assumes "cursor self = Some q" and "entries (structs self) q (stream self) ds = Some (q', s')"
    and "\<forall>d \<in> set ds. code d \<noteq> c"
    and "Dwarf_uleb128 (structs self) (seek q' s') = (Inr k, s1)" and "k \<noteq> 0"
    and "Dwarf_abbrev_declaration (structs self) s1 = (Inl e, s'')"
  shows "get_abbrev_scan self c = Some (Inl (reraised e), exhausted ds s'' self)"
proof -
  from yields_entries [OF assms(1,2)] obtain self1 where
    ys: "yields self ds = Some self1" and cur: "cursor self1 = Some q'"
    and fields: "stream self1 = s'" "structs self1 = structs self" "offset self1 = offset self"
      "abbrev_map self1 = stored ds (abbrev_map self)"
    by blast
  from assms(4,6) fields
  have "Dwarf_uleb128 (structs self1) (seek q' (stream self1)) = (Inr k, s1)"
    and "Dwarf_abbrev_declaration (structs self1) s1 = (Inl e, s'')"
    by simp_all
  with cur assms(5) have "abbrev_table_parser_next self1 =
      (Raise (reraised e), self1\<lparr>stream := s'', parser_state := Finished\<rparr>)"
    by (intro next_body_raises)
  then have "get_abbrev_scan self1 c =
      Some (Inl (reraised e), self1\<lparr>stream := s'', parser_state := Finished\<rparr>)"
    by (rule scan_raise)
  with scan_skips [OF ys assms(3)] finished_table [OF fields] show ?thesis by simp
qed

lemma entries_codes:
  "entries st q s ds = Some (q', s') \<Longrightarrow> \<forall>d \<in> set ds. code d \<noteq> 0"
proof (induction ds arbitrary: q s)
  case Nil
  then show ?case by simp
next
  case (Cons d ds)
  from Cons.prems obtain s1 s2 where "code d \<noteq> 0" and "entries st (tell s2) s2 ds = Some (q', s')"
    by (rule entries_Cons)
  with Cons.IH show ?case by simp
qed

lemma yields_within:
  assumes "yields self ds = Some self1" and "abbrev_table_parser_next self1 = (r, self2)"
    and "\<forall>d. r \<noteq> Yield d" and "yields self es = Some x"
  shows "set es \<subseteq> set ds"
  using assms(1,4)
proof (induction ds arbitrary: self es)
  case Nil
  with assms(2,3) show ?case by (cases es; cases r) simp_all
next
  case (Cons d ds)
  from Cons.prems(1) obtain self' where
    step: "abbrev_table_parser_next self = (Yield d, self')"
    and rest: "yields (cached d self') ds = Some self1"
    by (auto split: prod.splits step.splits if_splits)
  show ?case
  proof (cases es)
    case Nil
    then show ?thesis by simp
  next
    case (Cons e es')
    with Cons.prems(2) step have e: "e = d" and "yields (cached d self') es' = Some x"
      by (simp_all split: if_splits)
    with rest have "set es' \<subseteq> set ds" by (intro Cons.IH)
    with Cons e show ?thesis by auto
  qed
qed

lemma no_more_entries:
  assumes "cursor self = Some q" and "entries (structs self) q (stream self) ds = Some (q', s')"
    and "Dwarf_uleb128 (structs self) (seek q' s') = (Inr 0, s'')"
    and "\<forall>d \<in> set ds. code d \<noteq> c"
  shows "no_more c self"
proof -
  from yields_entries [OF assms(1,2)] obtain self1 where
    ys: "yields self ds = Some self1" and cur: "cursor self1 = Some q'"
    and fields: "stream self1 = s'" "structs self1 = structs self"
    by blast
  from assms(3) fields have "Dwarf_uleb128 (structs self1) (seek q' (stream self1)) = (Inr 0, s'')"
    by simp
  with cur have stop: "abbrev_table_parser_next self1 =
      (StopIteration, self1\<lparr>stream := s'', parser_state := Finished\<rparr>)"
    by (rule next_terminator)
  show ?thesis
    unfolding no_more_def
  proof (intro allI impI)
    fix es x
    assume "yields self es = Some x"
    note yw = yields_within [OF ys stop _ this]
    have "set es \<subseteq> set ds" by (rule yw) simp
    with assms(4) show "\<forall>d \<in> set es. code d \<noteq> c" by blast
  qed
qed

subsection \<open>The example tables, step by step\<close>

lemmas layout_defs =
  abbrev_table_parser_next_def parser_iteration_def struct_parse_def dwarf_structs_def
  abbrev_declaration_parse_def ULEB128_def UBInt8_def attr_spec_loop.simps
  read_def seek_def tell_def Let_def

lemma example_fresh:
  "AbbrevTable_init dwarf_structs (stream_of example_bytes) 2 = example_table 0 0 0 Created Map.empty"
  by (simp add: AbbrevTable_init_def example_table_def stream_of_def)

lemma example_cached:
  "(example_table p r k g m)\<lparr>abbrev_map := m'\<rparr> = example_table p r k g m'"
  "abbrev_map (example_table p r k g m) = m"
  by (simp_all add: example_table_def)

lemma example_next1:
  "abbrev_table_parser_next (example_table 0 0 0 Created m) =
     (Yield example_decl3, example_table 9 7 1 (Suspended 9) m)"
  by (simp add: example_table_def example_decl3_def example_bytes_def layout_defs)

lemma example_next2:
  "abbrev_table_parser_next (example_table 9 7 1 (Suspended 9) m) =
     (Yield example_decl1, example_table 18 16 2 (Suspended 18) m)"
  by (simp add: example_table_def example_decl1_def example_bytes_def layout_defs)

lemma example_next3:
  "abbrev_table_parser_next (example_table 18 16 2 (Suspended 18) m) =
     (Yield example_decl7, example_table 25 23 3 (Suspended 25) m)"
  by (simp add: example_table_def example_decl7_def example_bytes_def layout_defs)

lemma example_codes:
  "code example_decl3 = 3" "code example_decl1 = 1" "code example_decl7 = 7"
  by (simp_all add: example_decl3_def example_decl1_def example_decl7_def)

lemma example_get_1:
  "get_abbrev (example_table 0 0 0 Created Map.empty) 1 =
     Some (Inr example_decl1,
       example_table 18 16 2 (Suspended 18) [3 \<mapsto> example_decl3, 1 \<mapsto> example_decl1])"
proof -
  have "get_abbrev_scan (example_table 0 0 0 Created Map.empty) 1 =
      get_abbrev_scan (example_table 9 7 1 (Suspended 9) [3 \<mapsto> example_decl3]) 1"
    using scan_other [OF example_next1, of 1 Map.empty]
    by (simp add: example_cached example_codes del: One_nat_def)
  also have "\<dots> = Some (Inr example_decl1,
      example_table 18 16 2 (Suspended 18) [3 \<mapsto> example_decl3, 1 \<mapsto> example_decl1])"
    using scan_found [OF example_next2, of 1 "[3 \<mapsto> example_decl3]"]
    by (simp add: example_cached example_codes del: One_nat_def)
  finally show ?thesis
    by (simp add: get_abbrev_def example_cached)
qed

lemma example_calls_7:
  "calls (example_table 18 16 2 (Suspended 18) [3 \<mapsto> example_decl3, 1 \<mapsto> example_decl1]) [7] =
     Some (example_table 25 23 3 (Suspended 25)
       [3 \<mapsto> example_decl3, 1 \<mapsto> example_decl1, 7 \<mapsto> example_decl7])"
  using scan_found [OF example_next3, of 7 "[3 \<mapsto> example_decl3, 1 \<mapsto> example_decl1]"]
  by (simp add: get_abbrev_def example_cached example_codes)

lemma example_entries:
  "entries dwarf_structs 2 (stream_of example_bytes) [example_decl3, example_decl1, example_decl7] =
     Some (25, \<lparr>buf = example_bytes, pos = 25, reads = 23, seeks = 3\<rparr>)"
  by (simp add: stream_of_def example_decl3_def example_decl1_def example_decl7_def
      example_bytes_def layout_defs)

lemma example_entries_3:
  "entries dwarf_structs 2 (stream_of example_bytes) [example_decl3] =
     Some (9, \<lparr>buf = example_bytes, pos = 9, reads = 7, seeks = 1\<rparr>)"
  by (simp add: stream_of_def example_decl3_def example_bytes_def layout_defs)

lemma example_entries_7:
  "entries dwarf_structs 18 \<lparr>buf = example_bytes, pos = 18, reads = 16, seeks = 2\<rparr> [example_decl7] =
     Some (25, \<lparr>buf = example_bytes, pos = 25, reads = 23, seeks = 3\<rparr>)"
  by (simp add: example_decl7_def example_bytes_def layout_defs)

lemma example_terminator:
  "Dwarf_uleb128 dwarf_structs (seek 25 \<lparr>buf = example_bytes, pos = 25, reads = 23, seeks = 3\<rparr>) =
     (Inr 0, \<lparr>buf = example_bytes, pos = 26, reads = 24, seeks = 4\<rparr>)"
  by (simp add: example_bytes_def layout_defs)

lemma terminator_only_next:
  "abbrev_table_parser_next (AbbrevTable_init dwarf_structs (stream_of [0]) 0) =
     (StopIteration,
      \<lparr>structs = dwarf_structs, stream = \<lparr>buf = [0], pos = 1, reads = 1, seeks = 1\<rparr>,
       offset = 0, parser_state = Finished, abbrev_map = Map.empty\<rparr>)"
  by (simp add: AbbrevTable_init_def stream_of_def layout_defs)

lemma truncated_next1:
  "abbrev_table_parser_next (AbbrevTable_init dwarf_structs (stream_of truncated_bytes) 0) =
     (Yield truncated_decl3,
      \<lparr>structs = dwarf_structs,
       stream = \<lparr>buf = truncated_bytes, pos = 5, reads = 5, seeks = 1\<rparr>,
       offset = 0, parser_state = Suspended 5, abbrev_map = Map.empty\<rparr>)"
  by (simp add: AbbrevTable_init_def stream_of_def truncated_bytes_def truncated_decl3_def layout_defs)

lemma truncated_next2:
  "abbrev_table_parser_next
     \<lparr>structs = dwarf_structs,
      stream = \<lparr>buf = truncated_bytes, pos = 5, reads = 5, seeks = 1\<rparr>,
      offset = 0, parser_state = Suspended 5, abbrev_map = m\<rparr> =
     (Raise (ELFParseError ''missing terminator''),
      \<lparr>structs = dwarf_structs,
       stream = \<lparr>buf = truncated_bytes, pos = 5, reads = 6, seeks = 2\<rparr>,
       offset = 0, parser_state = Finished, abbrev_map = m\<rparr>)"
  by (simp add: truncated_bytes_def layout_defs)

lemma truncated_entries:
  "entries dwarf_structs 0 (stream_of truncated_bytes) [truncated_decl3] =
     Some (5, \<lparr>buf = truncated_bytes, pos = 5, reads = 5, seeks = 1\<rparr>)"
  by (simp add: stream_of_def truncated_decl3_def truncated_bytes_def layout_defs)

lemma truncated_end:
  "Dwarf_uleb128 dwarf_structs (seek 5 \<lparr>buf = truncated_bytes, pos = 5, reads = 5, seeks = 1\<rparr>) =
     (Inl (ConstructError ''missing terminator''),
      \<lparr>buf = truncated_bytes, pos = 5, reads = 6, seeks = 2\<rparr>)"
  by (simp add: truncated_bytes_def layout_defs)

lemma duplicate_next1:
  "abbrev_table_parser_next (AbbrevTable_init dwarf_structs (stream_of duplicate_bytes) 0) =
     (Yield duplicate_first,
      \<lparr>structs = dwarf_structs,
       stream = \<lparr>buf = duplicate_bytes, pos = 5, reads = 5, seeks = 1\<rparr>,
       offset = 0, parser_state = Suspended 5, abbrev_map = Map.empty\<rparr>)"
  by (simp add: AbbrevTable_init_def stream_of_def duplicate_bytes_def duplicate_first_def layout_defs)

lemma duplicate_next2:
  "abbrev_table_parser_next
     \<lparr>structs = dwarf_structs,
      stream = \<lparr>buf = duplicate_bytes, pos = 5, reads = 5, seeks = 1\<rparr>,
      offset = 0, parser_state = Suspended 5, abbrev_map = m\<rparr> =
     (Yield duplicate_second,
      \<lparr>structs = dwarf_structs,
       stream = \<lparr>buf = duplicate_bytes, pos = 10, reads = 10, seeks = 2\<rparr>,
       offset = 0, parser_state = Suspended 10, abbrev_map = m\<rparr>)"
  by (simp add: duplicate_bytes_def duplicate_second_def layout_defs)

lemma duplicate_next3:
  "abbrev_table_parser_next
     \<lparr>structs = dwarf_structs,
      stream = \<lparr>buf = duplicate_bytes, pos = 10, reads = 10, seeks = 2\<rparr>,
      offset = 0, parser_state = Suspended 10, abbrev_map = m\<rparr> =
     (Yield duplicate_five,
      \<lparr>structs = dwarf_structs,
       stream = \<lparr>buf = duplicate_bytes, pos = 15, reads = 15, seeks = 3\<rparr>,
       offset = 0, parser_state = Suspended 15, abbrev_map = m\<rparr>)"
  by (simp add: duplicate_bytes_def duplicate_five_def layout_defs)

lemma duplicate_codes:
  "code duplicate_first = 3" "code duplicate_second = 3" "code duplicate_five = 5"
  by (simp_all add: duplicate_first_def duplicate_second_def duplicate_five_def)

lemma duplicate_get_3:
  "get_abbrev (AbbrevTable_init dwarf_structs (stream_of duplicate_bytes) 0) 3 =
     Some (Inr duplicate_first,
       \<lparr>structs = dwarf_structs,
        stream = \<lparr>buf = duplicate_bytes, pos = 5, reads = 5, seeks = 1\<rparr>,
        offset = 0, parser_state = Suspended 5, abbrev_map = [3 \<mapsto> duplicate_first]\<rparr>)"
  using scan_found [OF duplicate_next1, of 3]
  by (simp add: get_abbrev_def duplicate_codes) (simp add: AbbrevTable_init_def)

lemma duplicate_get_5:
  "get_abbrev
     \<lparr>structs = dwarf_structs,
      stream = \<lparr>buf = duplicate_bytes, pos = 5, reads = 5, seeks = 1\<rparr>,
      offset = 0, parser_state = Suspended 5, abbrev_map = [3 \<mapsto> duplicate_first]\<rparr> 5 =
     Some (Inr duplicate_five,
       \<lparr>structs = dwarf_structs,
        stream = \<lparr>buf = duplicate_bytes, pos = 15, reads = 15, seeks = 3\<rparr>,
        offset = 0, parser_state = Suspended 15,
        abbrev_map = [3 \<mapsto> duplicate_second, 5 \<mapsto> duplicate_five]\<rparr>)"
proof -
  have "get_abbrev_scan
     \<lparr>structs = dwarf_structs,
      stream = \<lparr>buf = duplicate_bytes, pos = 5, reads = 5, seeks = 1\<rparr>,
      offset = 0, parser_state = Suspended 5, abbrev_map = [3 \<mapsto> duplicate_first]\<rparr> 5 =
    get_abbrev_scan
     \<lparr>structs = dwarf_structs,
      stream = \<lparr>buf = duplicate_bytes, pos = 10, reads = 10, seeks = 2\<rparr>,
      offset = 0, parser_state = Suspended 10, abbrev_map = [3 \<mapsto> duplicate_second]\<rparr> 5"
    using scan_other [OF duplicate_next2, of 5 "[3 \<mapsto> duplicate_first]"]
    by (simp add: duplicate_codes)
  also have "\<dots> = Some (Inr duplicate_five,
       \<lparr>structs = dwarf_structs,
        stream = \<lparr>buf = duplicate_bytes, pos = 15, reads = 15, seeks = 3\<rparr>,
        offset = 0, parser_state = Suspended 15,
        abbrev_map = [3 \<mapsto> duplicate_second, 5 \<mapsto> duplicate_five]\<rparr>)"
    using scan_found [OF duplicate_next3, of 5 "[3 \<mapsto> duplicate_second]"]
    by (simp add: duplicate_codes)
  finally show ?thesis by (simp add: get_abbrev_def)
qed

subsection \<open>Resumable lookup\<close>

text \<open>
  Lookups on a fresh table whose parser yields, in its first three steps, declarations
  with the codes 3, 1 and 7.
\<close>

lemma lookup_after_yields:
  assumes "yields (AbbrevTable_init st strm off) [d3, d1, d7] = Some self'"
    and "code d3 = 3" and "code d1 = 1" and "code d7 = 7"
  shows "get_abbrev (AbbrevTable_init st strm off) 7 = Some (Inr d7, self')
    \<and> abbrev_map self' = [3 \<mapsto> d3, 1 \<mapsto> d1, 7 \<mapsto> d7]
    \<and> parser_state self' = Suspended (tell (stream self'))
    \<and> get_abbrev self' 3 = Some (Inr d3, self')
    \<and> get_abbrev self' 1 = Some (Inr d1, self')
    \<and> (\<exists>sa. get_abbrev (AbbrevTable_init st strm off) 3 = Some (Inr d3, sa)
          \<and> abbrev_map sa = [3 \<mapsto> d3]
          \<and> parser_state sa = Suspended (tell (stream sa))
          \<and> get_abbrev sa 7 = Some (Inr d7, self')
          \<and> (\<forall>p. get_abbrev (moved p sa) 7 = Some (Inr d7, self')))"
proof -
  let ?self = "AbbrevTable_init st strm off"
  have fresh: "abbrev_map ?self = Map.empty"
    by (simp add: AbbrevTable_init_def)
  from assms(1) obtain s1 s2 s3 where
    n1: "abbrev_table_parser_next ?self = (Yield d3, s1)"
    and n2: "abbrev_table_parser_next (cached d3 s1) = (Yield d1, s2)"
    and n3: "abbrev_table_parser_next (cached d1 s2) = (Yield d7, s3)"
    and self': "self' = cached d7 s3"
    by (auto split: prod.splits step.splits if_splits)
  note r1 = next_result [OF n1] and r2 = next_result [OF n2] and r3 = next_result [OF n3]
  have last: "get_abbrev_scan (cached d1 s2) 7 = Some (Inr d7, self')"
    unfolding self' using n3 assms(4) by (rule scan_found)
  have "yields ?self [d3, d1] = Some (cached d1 s2)"
    using n1 n2 by simp
  moreover have "\<forall>d \<in> set [d3, d1]. code d \<noteq> 7"
    using assms(2,3) by simp
  ultimately have "get_abbrev_scan ?self 7 = get_abbrev_scan (cached d1 s2) 7"
    by (rule scan_skips)
  with last have call: "get_abbrev ?self 7 = Some (Inr d7, self')"
    by (simp add: get_abbrev_def fresh)
  have map: "abbrev_map self' = [3 \<mapsto> d3, 1 \<mapsto> d1, 7 \<mapsto> d7]"
    using r1 r2 r3 assms(2-4) by (simp add: self' fresh)
  have cursor: "parser_state self' = Suspended (tell (stream self'))"
    using r3 by (simp add: self')
  from map have "abbrev_map self' 3 = Some d3" and "abbrev_map self' 1 = Some d1"
    by simp_all
  then have hits: "get_abbrev self' 3 = Some (Inr d3, self')" "get_abbrev self' 1 = Some (Inr d1, self')"
    by (simp_all add: get_abbrev_def)
  have first: "get_abbrev ?self 3 = Some (Inr d3, cached d3 s1)"
    using scan_found [OF n1 assms(2)] by (simp add: get_abbrev_def fresh)
  have map1: "abbrev_map (cached d3 s1) = [3 \<mapsto> d3]"
    using r1 assms(2) by (simp add: fresh)
  have cursor1: "parser_state (cached d3 s1) = Suspended (tell (stream (cached d3 s1)))"
    using r1 by simp
  have "get_abbrev_scan (cached d3 s1) 7 = get_abbrev_scan (cached d1 s2) 7"
    using n2 assms(3) by (intro scan_other) simp_all
  with last map1 have second: "get_abbrev (cached d3 s1) 7 = Some (Inr d7, self')"
    by (simp add: get_abbrev_def)
  have third: "get_abbrev (moved p (cached d3 s1)) 7 = Some (Inr d7, self')" for p
  proof -
    from cursor1 have "parser_state (cached d3 s1) \<noteq> Finished" by simp
    then have "get_abbrev_scan (moved p (cached d3 s1)) 7 = get_abbrev_scan (cached d3 s1) 7"
      by (rule scan_moved)
    with second map1 show ?thesis by (simp add: get_abbrev_def)
  qed
  from first map1 cursor1 second third
  have "\<exists>sa. get_abbrev ?self 3 = Some (Inr d3, sa) \<and> abbrev_map sa = [3 \<mapsto> d3]
      \<and> parser_state sa = Suspended (tell (stream sa)) \<and> get_abbrev sa 7 = Some (Inr d7, self')
      \<and> (\<forall>p. get_abbrev (moved p sa) 7 = Some (Inr d7, self'))"
    by blast
  with call map cursor hits show ?thesis by simp
qed

text \<open>
  Claim C1. Take a table whose stream holds, from the table's offset on, declarations
  with the codes 3, 1 and 7, in this order. On the fresh table the first call
  \<open>get_abbrev 7\<close> decodes the three of them, stores each in the cache and returns the
  one with code 7; the parser is left suspended with its cursor at the position \<open>q\<close>
  where that declaration ends. The calls \<open>get_abbrev 3\<close> and \<open>get_abbrev 1\<close> after it
  return the stored declarations and leave the table, its stream with the read and seek
  counters included, as it is. Decoding resumes at the parser's cursor, not at the
  table's offset: the first declaration ends at a position \<open>q1\<close>, from where the other
  two stand; the call \<open>get_abbrev 3\<close> on the fresh table stops with the cursor at
  \<open>q1\<close>, and the call \<open>get_abbrev 7\<close> after it, wherever the position of the stream
  has been moved to in between, decodes the two declarations from \<open>q1\<close> on and ends in
  the same table as the single call.
\<close>

theorem resumable_lookup:
  assumes "entries st off strm [d3, d1, d7] = Some (q, s)"
    and "code d3 = 3" and "code d1 = 1" and "code d7 = 7"
  shows "get_abbrev (AbbrevTable_init st strm off) 7 =
       Some (Inr d7, \<lparr>structs = st, stream = s, offset = off, parser_state = Suspended q,
                      abbrev_map = [3 \<mapsto> d3, 1 \<mapsto> d1, 7 \<mapsto> d7]\<rparr>)
    \<and> get_abbrev \<lparr>structs = st, stream = s, offset = off, parser_state = Suspended q,
                   abbrev_map = [3 \<mapsto> d3, 1 \<mapsto> d1, 7 \<mapsto> d7]\<rparr> 3 =
       Some (Inr d3, \<lparr>structs = st, stream = s, offset = off, parser_state = Suspended q,
                      abbrev_map = [3 \<mapsto> d3, 1 \<mapsto> d1, 7 \<mapsto> d7]\<rparr>)
    \<and> get_abbrev \<lparr>structs = st, stream = s, offset = off, parser_state = Suspended q,
                   abbrev_map = [3 \<mapsto> d3, 1 \<mapsto> d1, 7 \<mapsto> d7]\<rparr> 1 =
       Some (Inr d1, \<lparr>structs = st, stream = s, offset = off, parser_state = Suspended q,
                      abbrev_map = [3 \<mapsto> d3, 1 \<mapsto> d1, 7 \<mapsto> d7]\<rparr>)
    \<and> (\<exists>q1 s1. entries st off strm [d3] = Some (q1, s1)
          \<and> entries st q1 s1 [d1, d7] = Some (q, s)
          \<and> get_abbrev (AbbrevTable_init st strm off) 3 =
               Some (Inr d3, \<lparr>structs = st, stream = s1, offset = off,
                              parser_state = Suspended q1, abbrev_map = [3 \<mapsto> d3]\<rparr>)
          \<and> (\<forall>p. get_abbrev \<lparr>structs = st, stream = s1\<lparr>pos := p\<rparr>, offset = off,
                               parser_state = Suspended q1, abbrev_map = [3 \<mapsto> d3]\<rparr> 7 =
                Some (Inr d7, \<lparr>structs = st, stream = s, offset = off, parser_state = Suspended q,
                               abbrev_map = [3 \<mapsto> d3, 1 \<mapsto> d1, 7 \<mapsto> d7]\<rparr>)))"
proof -
  let ?self = "AbbrevTable_init st strm off"
  let ?self7 = "\<lparr>structs = st, stream = s, offset = off, parser_state = Suspended q,
      abbrev_map = [3 \<mapsto> d3, 1 \<mapsto> d1, 7 \<mapsto> d7]\<rparr>"
  have fresh: "structs ?self = st" "stream ?self = strm" "offset ?self = off"
      "abbrev_map ?self = Map.empty"
    by (simp_all add: AbbrevTable_init_def)
  from assms(1) have "entries (structs ?self) off (stream ?self) [d3, d1, d7] = Some (q, s)"
    by (simp only: fresh)
  from yields_entries [OF cursor_fresh this] obtain self1 where
    ys: "yields ?self [d3, d1, d7] = Some self1" and "stream self1 = s" and "structs self1 = st"
    and "offset self1 = off" and "abbrev_map self1 = stored [d3, d1, d7] Map.empty"
    and "parser_state self1 = Suspended q"
    by (auto simp only: fresh list.simps)
  with assms(2-4) have self1: "self1 = ?self7"
    by (intro table_eq) simp_all
  note whole = lookup_after_yields [OF ys [unfolded self1] assms(2-4)]
  from assms(1) obtain sa s1 where
    c: "Dwarf_uleb128 st (seek off strm) = (Inr (code d3), sa)" and nz: "code d3 \<noteq> 0"
    and b: "Dwarf_abbrev_declaration st sa = (Inr (decl d3), s1)"
    and rest: "entries st (tell s1) s1 [d1, d7] = Some (q, s)"
    by (rule entries_Cons)
  let ?self3 = "\<lparr>structs = st, stream = s1, offset = off, parser_state = Suspended (tell s1),
      abbrev_map = [3 \<mapsto> d3]\<rparr>"
  from c nz b have first: "entries st off strm [d3] = Some (tell s1, s1)"
    by simp
  then have "entries (structs ?self) off (stream ?self) [d3] = Some (tell s1, s1)"
    by (simp only: fresh)
  from yields_entries [OF cursor_fresh this] obtain sb where
    "yields ?self [d3] = Some sb" and "stream sb = s1" and "structs sb = st"
    and "offset sb = off" and "abbrev_map sb = stored [d3] Map.empty"
    and "parser_state sb = Suspended (tell s1)"
    by (auto simp only: fresh list.simps)
  with assms(2) have sb: "sb = ?self3" and ys3: "yields ?self [d3] = Some sb"
    by (simp_all add: table_eq)
  from ys3 obtain sc where n1: "abbrev_table_parser_next ?self = (Yield d3, sc)"
    and "sb = cached d3 sc"
    by (auto split: prod.splits step.splits if_splits)
  with scan_found [OF n1 assms(2)] have call: "get_abbrev ?self 3 = Some (Inr d3, ?self3)"
    by (simp add: get_abbrev_def fresh sb)
  from whole obtain sd where "get_abbrev ?self 3 = Some (Inr d3, sd)"
    and moved: "\<forall>p. get_abbrev (moved p sd) 7 = Some (Inr d7, ?self7)"
    by blast
  with call have "sd = ?self3" by simp
  with moved have "\<forall>p. get_abbrev (moved p ?self3) 7 = Some (Inr d7, ?self7)" by simp
  then have again: "\<forall>p. get_abbrev \<lparr>structs = st, stream = s1\<lparr>pos := p\<rparr>, offset = off,
      parser_state = Suspended (tell s1), abbrev_map = [3 \<mapsto> d3]\<rparr> 7 = Some (Inr d7, ?self7)"
    by simp
  from first rest call again
  have "\<exists>q1 s1. entries st off strm [d3] = Some (q1, s1)
      \<and> entries st q1 s1 [d1, d7] = Some (q, s)
      \<and> get_abbrev ?self 3 =
           Some (Inr d3, \<lparr>structs = st, stream = s1, offset = off,
                          parser_state = Suspended q1, abbrev_map = [3 \<mapsto> d3]\<rparr>)
      \<and> (\<forall>p. get_abbrev \<lparr>structs = st, stream = s1\<lparr>pos := p\<rparr>, offset = off,
                           parser_state = Suspended q1, abbrev_map = [3 \<mapsto> d3]\<rparr> 7 =
            Some (Inr d7, ?self7))"
    by (intro exI [of _ "tell s1"] exI [of _ s1] conjI)
  with whole show ?thesis by blast
qed

theorem resumable_lookup_witness:
  "get_abbrev (AbbrevTable_init dwarf_structs (stream_of example_bytes) 2) 7 =
     Some (Inr example_decl7, example_table 25 23 3 (Suspended 25)
       [3 \<mapsto> example_decl3, 1 \<mapsto> example_decl1, 7 \<mapsto> example_decl7])
   \<and> get_abbrev (example_table 25 23 3 (Suspended 25)
         [3 \<mapsto> example_decl3, 1 \<mapsto> example_decl1, 7 \<mapsto> example_decl7]) 3 =
     Some (Inr example_decl3, example_table 25 23 3 (Suspended 25)
       [3 \<mapsto> example_decl3, 1 \<mapsto> example_decl1, 7 \<mapsto> example_decl7])
   \<and> get_abbrev (example_table 25 23 3 (Suspended 25)
         [3 \<mapsto> example_decl3, 1 \<mapsto> example_decl1, 7 \<mapsto> example_decl7]) 1 =
     Some (Inr example_decl1, example_table 25 23 3 (Suspended 25)
       [3 \<mapsto> example_decl3, 1 \<mapsto> example_decl1, 7 \<mapsto> example_decl7])
   \<and> get_abbrev (AbbrevTable_init dwarf_structs (stream_of example_bytes) 2) 3 =
     Some (Inr example_decl3, example_table 9 7 1 (Suspended 9) [3 \<mapsto> example_decl3])
   \<and> get_abbrev (example_table 0 7 1 (Suspended 9) [3 \<mapsto> example_decl3]) 7 =
     Some (Inr example_decl7, example_table 25 23 3 (Suspended 25)
       [3 \<mapsto> example_decl3, 1 \<mapsto> example_decl1, 7 \<mapsto> example_decl7])"
proof -
  note inst = resumable_lookup [OF example_entries example_codes]
  from inst obtain q1 s1 where
    "entries dwarf_structs 2 (stream_of example_bytes) [example_decl3] = Some (q1, s1)"
    and first: "get_abbrev (AbbrevTable_init dwarf_structs (stream_of example_bytes) 2) 3 =
      Some (Inr example_decl3,
        \<lparr>structs = dwarf_structs, stream = s1, offset = 2, parser_state = Suspended q1,
         abbrev_map = [3 \<mapsto> example_decl3]\<rparr>)"
    and again: "\<forall>p. get_abbrev
        \<lparr>structs = dwarf_structs, stream = s1\<lparr>pos := p\<rparr>, offset = 2,
         parser_state = Suspended q1, abbrev_map = [3 \<mapsto> example_decl3]\<rparr> 7 =
      Some (Inr example_decl7,
        \<lparr>structs = dwarf_structs,
         stream = \<lparr>buf = example_bytes, pos = 25, reads = 23, seeks = 3\<rparr>, offset = 2,
         parser_state = Suspended 25,
         abbrev_map = [3 \<mapsto> example_decl3, 1 \<mapsto> example_decl1, 7 \<mapsto> example_decl7]\<rparr>)"
    by blast
  with example_entries_3 have at: "q1 = 9"
      "s1 = \<lparr>buf = example_bytes, pos = 9, reads = 7, seeks = 1\<rparr>"
    by simp_all
  from again [unfolded at, THEN spec, of 0] first [unfolded at] inst show ?thesis
    by (simp add: example_table_def)
qed

subsection \<open>Memoization\<close>

text \<open>
  Claim C2, as stated, fails. It says that any second call \<open>get_abbrev c\<close> returns the
  same cached declaration. On a table that uses the code 3 for its first and for its
  second declaration, \<open>get_abbrev 3\<close> returns the first; \<open>get_abbrev 5\<close> then scans past
  the second, which replaces the first in the cache; and the next \<open>get_abbrev 3\<close>
  returns the second.
\<close>

theorem get_abbrev_memoized_counterexample:
  "lookups (AbbrevTable_init dwarf_structs (stream_of duplicate_bytes) 0) [3, 5, 3] =
     Some [Inr duplicate_first, Inr duplicate_five, Inr duplicate_second]
   \<and> duplicate_first \<noteq> duplicate_second"
proof -
  have "get_abbrev
      \<lparr>structs = dwarf_structs,
       stream = \<lparr>buf = duplicate_bytes, pos = 15, reads = 15, seeks = 3\<rparr>,
       offset = 0, parser_state = Suspended 15,
       abbrev_map = [3 \<mapsto> duplicate_second, 5 \<mapsto> duplicate_five]\<rparr> 3 =
    Some (Inr duplicate_second,
      \<lparr>structs = dwarf_structs,
       stream = \<lparr>buf = duplicate_bytes, pos = 15, reads = 15, seeks = 3\<rparr>,
       offset = 0, parser_state = Suspended 15,
       abbrev_map = [3 \<mapsto> duplicate_second, 5 \<mapsto> duplicate_five]\<rparr>)"
    by (simp add: get_abbrev_def)
  then have "lookups (AbbrevTable_init dwarf_structs (stream_of duplicate_bytes) 0) [3, 5, 3] =
      Some [Inr duplicate_first, Inr duplicate_five, Inr duplicate_second]"
    by (simp add: duplicate_get_3 duplicate_get_5 del: One_nat_def)
  moreover have "duplicate_first \<noteq> duplicate_second"
    by (simp add: duplicate_first_def duplicate_second_def)
  ultimately show ?thesis by simp
qed

text \<open>
  Claim C2, amended. For every code \<open>c\<close>: after a call \<open>get_abbrev c\<close> that returned the
  declaration \<open>d\<close>, a second call \<open>get_abbrev c\<close> right after it returns \<open>d\<close> again and
  leaves the table unchanged: no read and no seek on the stream. After any further calls
  in between, \<open>get_abbrev c\<close> still returns a cached declaration and leaves the table,
  stream included, unchanged; it is \<open>d\<close> itself when no declaration that the parser
  still yields after the first call has the code \<open>c\<close>, as is the case when the rest of
  the table holds declarations with other codes up to its terminator.
\<close>

theorem get_abbrev_memoized:
  assumes "get_abbrev self c = Some (Inr d, self1)"
  shows "get_abbrev self1 c = Some (Inr d, self1)
    \<and> (calls self1 cs = Some self2 \<longrightarrow>
         (\<exists>d'. get_abbrev self2 c = Some (Inr d', self2))
         \<and> (no_more c self1 \<longrightarrow> get_abbrev self2 c = Some (Inr d, self2))
         \<and> (cursor self1 = Some q \<and> entries (structs self1) q (stream self1) ds = Some (q', s')
              \<and> Dwarf_uleb128 (structs self1) (seek q' s') = (Inr 0, s'')
              \<and> (\<forall>x \<in> set ds. code x \<noteq> c) \<longrightarrow>
            get_abbrev self2 c = Some (Inr d, self2)))"
proof -
  from assms have "lookup_post self c (Inr d, self1)" by (rule get_abbrev_post)
  then have stored: "abbrev_map self1 c = Some d" by (simp add: lookup_post_def)
  then have "get_abbrev self1 c = Some (Inr d, self1)" by (rule get_abbrev_cached)
  moreover have "\<exists>d'. get_abbrev self2 c = Some (Inr d', self2)" if "calls self1 cs = Some self2"
  proof -
    from calls_post [OF that] stored obtain d' where "abbrev_map self2 c = Some d'" by auto
    then show ?thesis by (auto dest: get_abbrev_cached)
  qed
  moreover have same: "get_abbrev self2 c = Some (Inr d, self2)"
    if "calls self1 cs = Some self2" and "no_more c self1"
    using calls_keep_entry [OF that] stored by (simp add: get_abbrev_cached)
  moreover have "get_abbrev self2 c = Some (Inr d, self2)"
    if "calls self1 cs = Some self2" and "cursor self1 = Some q"
      and "entries (structs self1) q (stream self1) ds = Some (q', s')"
      and "Dwarf_uleb128 (structs self1) (seek q' s') = (Inr 0, s'')"
      and "\<forall>x \<in> set ds. code x \<noteq> c"
    using that(1) no_more_entries [OF that(2-5)] by (rule same)
  ultimately show ?thesis by blast
qed

theorem get_abbrev_memoized_witness:
  "get_abbrev (AbbrevTable_init dwarf_structs (stream_of example_bytes) 2) 1 =
     Some (Inr example_decl1,
       example_table 18 16 2 (Suspended 18) [3 \<mapsto> example_decl3, 1 \<mapsto> example_decl1])
   \<and> get_abbrev (example_table 18 16 2 (Suspended 18) [3 \<mapsto> example_decl3, 1 \<mapsto> example_decl1]) 1 =
     Some (Inr example_decl1,
       example_table 18 16 2 (Suspended 18) [3 \<mapsto> example_decl3, 1 \<mapsto> example_decl1])
   \<and> calls (example_table 18 16 2 (Suspended 18) [3 \<mapsto> example_decl3, 1 \<mapsto> example_decl1]) [7] =
     Some (example_table 25 23 3 (Suspended 25)
       [3 \<mapsto> example_decl3, 1 \<mapsto> example_decl1, 7 \<mapsto> example_decl7])
   \<and> get_abbrev (example_table 25 23 3 (Suspended 25)
         [3 \<mapsto> example_decl3, 1 \<mapsto> example_decl1, 7 \<mapsto> example_decl7]) 1 =
       Some (Inr example_decl1, example_table 25 23 3 (Suspended 25)
         [3 \<mapsto> example_decl3, 1 \<mapsto> example_decl1, 7 \<mapsto> example_decl7])"
proof -
  let ?t2 = "example_table 18 16 2 (Suspended 18) [3 \<mapsto> example_decl3, 1 \<mapsto> example_decl1]"
  let ?t3 = "example_table 25 23 3 (Suspended 25)
       [3 \<mapsto> example_decl3, 1 \<mapsto> example_decl1, 7 \<mapsto> example_decl7]"
  let ?s3 = "\<lparr>buf = example_bytes, pos = 25, reads = 23, seeks = 3\<rparr>"
  let ?s4 = "\<lparr>buf = example_bytes, pos = 26, reads = 24, seeks = 4\<rparr>"
  have cur: "cursor ?t2 = Some 18"
    by (simp add: cursor_def example_table_def)
  have table: "entries (structs ?t2) 18 (stream ?t2) [example_decl7] = Some (25, ?s3)"
    using example_entries_7 by (simp add: example_table_def)
  have terminator: "Dwarf_uleb128 (structs ?t2) (seek 25 ?s3) = (Inr 0, ?s4)"
    using example_terminator by (simp add: example_table_def)
  have codes: "\<forall>x \<in> set [example_decl7]. code x \<noteq> 1"
    by (simp add: example_codes)
  note inst = get_abbrev_memoized [OF example_get_1, where cs = "[7]" and ?self2.0 = ?t3
      and q = 18 and ds = "[example_decl7]" and q' = 25 and s' = ?s3 and s'' = ?s4]
  from inst example_calls_7 cur table terminator codes
  have "get_abbrev ?t3 1 = Some (Inr example_decl1, ?t3)" by blast
  with inst example_get_1 example_calls_7 show ?thesis
    by (simp only: example_fresh simp_thms)
qed

subsection \<open>Not found\<close>

text \<open>
  Claim C3, as stated, fails. It says that the not-found error is not a generic
  missing-key error. On a table that holds the terminator only, \<open>get_abbrev 5\<close> raises
  \<open>KeyError 5\<close>, Python's missing-key error, as the docstring of \<^verbatim>\<open>get_abbrev\<close> says.
\<close>

theorem get_abbrev_not_found_counterexample:
  "map_option fst (get_abbrev (AbbrevTable_init dwarf_structs (stream_of [0]) 0) 5) =
     Some (Inl (KeyError 5))"
  using scan_stop [OF terminator_only_next, of 5]
  by (simp add: get_abbrev_def AbbrevTable_init_def)

text \<open>
  Claim C3, amended. Take a table that does not hold the code \<open>c\<close> in its cache and whose
  stream holds, from the parser's cursor on, declarations with other codes and then the
  terminator: the code layout decodes 0 where the last of them ends. Then
  \<open>get_abbrev c\<close> raises \<open>KeyError c\<close>, which is not the binary parse error, after it
  has stored the declarations it passed. The parser is finished from then on: every
  later call for a code \<open>k\<close> that is not in the cache raises \<open>KeyError k\<close>, and no later
  call changes the table, so none reads or seeks the stream.
\<close>

theorem get_abbrev_not_found:
  assumes "cursor self = Some q"
    and "entries (structs self) q (stream self) ds = Some (q', s')"
    and "\<forall>d \<in> set ds. code d \<noteq> c"
    and "Dwarf_uleb128 (structs self) (seek q' s') = (Inr 0, s'')"
    and "abbrev_map self c = None"
  shows "get_abbrev self c = Some (Inl (KeyError c), exhausted ds s'' self)
    \<and> KeyError c \<noteq> ELFParseError msg
    \<and> (abbrev_map (exhausted ds s'' self) k = None \<longrightarrow>
         get_abbrev (exhausted ds s'' self) k = Some (Inl (KeyError k), exhausted ds s'' self))
    \<and> calls (exhausted ds s'' self) cs = Some (exhausted ds s'' self)"
proof -
  have fin: "parser_state (exhausted ds s'' self) = Finished" by simp
  from scan_to_terminator [OF assms(1-4)] assms(5)
  have "get_abbrev self c = Some (Inl (KeyError c), exhausted ds s'' self)"
    by (simp add: get_abbrev_def)
  moreover from fin have "abbrev_map (exhausted ds s'' self) k = None \<longrightarrow>
      get_abbrev (exhausted ds s'' self) k = Some (Inl (KeyError k), exhausted ds s'' self)"
    by (simp add: get_abbrev_finished)
  moreover from fin have "calls (exhausted ds s'' self) cs = Some (exhausted ds s'' self)"
    by (rule calls_finished)
  ultimately show ?thesis by simp
qed

theorem get_abbrev_not_found_witness:
  "get_abbrev (AbbrevTable_init dwarf_structs (stream_of example_bytes) 2) 5 =
     Some (Inl (KeyError 5), example_table 26 24 4 Finished
       [3 \<mapsto> example_decl3, 1 \<mapsto> example_decl1, 7 \<mapsto> example_decl7])
   \<and> get_abbrev (example_table 26 24 4 Finished
       [3 \<mapsto> example_decl3, 1 \<mapsto> example_decl1, 7 \<mapsto> example_decl7]) 9 =
     Some (Inl (KeyError 9), example_table 26 24 4 Finished
       [3 \<mapsto> example_decl3, 1 \<mapsto> example_decl1, 7 \<mapsto> example_decl7])
   \<and> calls (example_table 26 24 4 Finished
       [3 \<mapsto> example_decl3, 1 \<mapsto> example_decl1, 7 \<mapsto> example_decl7]) [3, 9, 0] =
     Some (example_table 26 24 4 Finished
       [3 \<mapsto> example_decl3, 1 \<mapsto> example_decl1, 7 \<mapsto> example_decl7])"
proof -
  let ?self = "AbbrevTable_init dwarf_structs (stream_of example_bytes) 2"
  have fields: "structs ?self = dwarf_structs" "stream ?self = stream_of example_bytes"
    by (simp_all add: AbbrevTable_init_def)
  have codes: "\<forall>d \<in> set [example_decl3, example_decl1, example_decl7]. code d \<noteq> 5"
    by (simp add: example_codes)
  have fresh: "abbrev_map ?self 5 = None"
    by (simp add: AbbrevTable_init_def)
  have final: "exhausted [example_decl3, example_decl1, example_decl7]
        \<lparr>buf = example_bytes, pos = 26, reads = 24, seeks = 4\<rparr> ?self =
      example_table 26 24 4 Finished
        [3 \<mapsto> example_decl3, 1 \<mapsto> example_decl1, 7 \<mapsto> example_decl7]"
    by (simp add: AbbrevTable_init_def example_table_def example_codes)
  have table: "entries (structs ?self) 2 (stream ?self)
        [example_decl3, example_decl1, example_decl7] =
      Some (25, \<lparr>buf = example_bytes, pos = 25, reads = 23, seeks = 3\<rparr>)"
    using example_entries by (simp only: fields)
  have terminator: "Dwarf_uleb128 (structs ?self)
        (seek 25 \<lparr>buf = example_bytes, pos = 25, reads = 23, seeks = 3\<rparr>) =
      (Inr 0, \<lparr>buf = example_bytes, pos = 26, reads = 24, seeks = 4\<rparr>)"
    using example_terminator by (simp only: fields)
  from get_abbrev_not_found [OF cursor_fresh table codes terminator fresh,
      where k = 9 and cs = "[3, 9, 0]" and msg = "[]"]
  show ?thesis
    unfolding final by (simp add: example_cached)
qed

subsection \<open>The reserved code 0\<close>

text \<open>
  Claim C9, as stated, fails. It says that \<open>get_abbrev 0\<close> always fails with the
  not-found error. On a table that is cut off after its first declaration, the scan
  stores that declaration and then fails to decode the next code: \<open>get_abbrev 0\<close> raises
  the binary parse error, not \<open>KeyError 0\<close>.
\<close>

theorem get_abbrev_zero_counterexample:
  "map_option fst (get_abbrev (AbbrevTable_init dwarf_structs (stream_of truncated_bytes) 0) 0) =
     Some (Inl (ELFParseError ''missing terminator''))"
proof -
  have "get_abbrev_scan (AbbrevTable_init dwarf_structs (stream_of truncated_bytes) 0) 0 =
      get_abbrev_scan
        \<lparr>structs = dwarf_structs,
         stream = \<lparr>buf = truncated_bytes, pos = 5, reads = 5, seeks = 1\<rparr>,
         offset = 0, parser_state = Suspended 5, abbrev_map = [3 \<mapsto> truncated_decl3]\<rparr> 0"
    using scan_other [OF truncated_next1, of 0] by (simp add: truncated_decl3_def)
  also have "\<dots> = Some (Inl (ELFParseError ''missing terminator''),
       \<lparr>structs = dwarf_structs,
        stream = \<lparr>buf = truncated_bytes, pos = 5, reads = 6, seeks = 2\<rparr>,
        offset = 0, parser_state = Finished, abbrev_map = [3 \<mapsto> truncated_decl3]\<rparr>)"
    by (rule scan_raise [OF truncated_next2])
  finally show ?thesis
    by (simp add: get_abbrev_def AbbrevTable_init_def)
qed

text \<open>
  Claim C9, amended. In every table reached from a fresh one by calls of
  \<open>get_abbrev\<close>, the code 0 is not in the cache. A call \<open>get_abbrev 0\<close> that returns
  never returns a declaration: it raises, the parser is finished afterwards, 0 is still
  not in the cache, and every further \<open>get_abbrev 0\<close> raises \<open>KeyError 0\<close>. What the
  first call raises: \<open>KeyError 0\<close> when the parser has finished before, and when the
  stream holds declarations from the parser's cursor on and then the terminator, which
  the call passes and stores; what \<open>struct_parse\<close> raises, when after these declarations
  the code layout raises, or decodes a code other than 0 and the declaration layout
  raises. With layouts that raise the engine's error only, it is \<open>KeyError 0\<close> or the
  binary parse error. With layouts that consume what they decode, the call does return.
\<close>

theorem get_abbrev_zero_fails:
  assumes "calls (AbbrevTable_init st strm off) cs = Some self"
  shows "abbrev_map self 0 = None
    \<and> (get_abbrev self 0 = Some (r, self1) \<longrightarrow>
         (\<exists>e. r = Inl e) \<and> parser_state self1 = Finished \<and> abbrev_map self1 0 = None
         \<and> get_abbrev self1 0 = Some (Inl (KeyError 0), self1))
    \<and> (parser_state self = Finished \<longrightarrow> get_abbrev self 0 = Some (Inl (KeyError 0), self))
    \<and> (cursor self = Some q \<and> entries st q (stream self) ds = Some (q', s') \<longrightarrow>
         (Dwarf_uleb128 st (seek q' s') = (Inr 0, s'') \<longrightarrow>
            get_abbrev self 0 = Some (Inl (KeyError 0), exhausted ds s'' self))
         \<and> (Dwarf_uleb128 st (seek q' s') = (Inl e, s'') \<longrightarrow>
            get_abbrev self 0 = Some (Inl (reraised e), exhausted ds s'' self))
         \<and> (Dwarf_uleb128 st (seek q' s') = (Inr k, s1) \<and> k \<noteq> 0
              \<and> Dwarf_abbrev_declaration st s1 = (Inl e, s'') \<longrightarrow>
            get_abbrev self 0 = Some (Inl (reraised e), exhausted ds s'' self)))
    \<and> (construct_errors st \<and> get_abbrev self 0 = Some (r, self1) \<longrightarrow>
         r = Inl (KeyError 0) \<or> (\<exists>m. r = Inl (ELFParseError m)))
    \<and> (consuming st \<longrightarrow> (\<exists>e self1. get_abbrev self 0 = Some (Inl e, self1)))"
proof -
  from calls_post [OF assms] have none: "abbrev_map self 0 = None" and st: "structs self = st"
    by (simp_all add: AbbrevTable_init_def)
  have ret: "(\<exists>e. r = Inl e) \<and> parser_state self1 = Finished \<and> abbrev_map self1 0 = None
      \<and> get_abbrev self1 0 = Some (Inl (KeyError 0), self1)"
    if "get_abbrev self 0 = Some (r, self1)" for r self1
  proof -
    from that have post: "lookup_post self 0 (r, self1)" by (rule get_abbrev_post)
    with none have none1: "abbrev_map self1 0 = None" by (simp add: lookup_post_def)
    with post obtain e where r: "r = Inl e" by (cases r) (auto simp: lookup_post_def)
    with post have fin: "parser_state self1 = Finished" by (simp add: lookup_post_def)
    from r fin none1 show ?thesis by (simp add: get_abbrev_finished)
  qed
  have over: "get_abbrev self 0 = Some (Inl (KeyError 0), self)" if "parser_state self = Finished"
    using that none by (simp add: get_abbrev_finished)
  have rest: "(Dwarf_uleb128 st (seek q' s') = (Inr 0, s'') \<longrightarrow>
            get_abbrev self 0 = Some (Inl (KeyError 0), exhausted ds s'' self))
         \<and> (Dwarf_uleb128 st (seek q' s') = (Inl e, s'') \<longrightarrow>
            get_abbrev self 0 = Some (Inl (reraised e), exhausted ds s'' self))
         \<and> (Dwarf_uleb128 st (seek q' s') = (Inr k, s1) \<and> k \<noteq> 0
              \<and> Dwarf_abbrev_declaration st s1 = (Inl e, s'') \<longrightarrow>
            get_abbrev self 0 = Some (Inl (reraised e), exhausted ds s'' self))"
    if cur: "cursor self = Some q" and "entries st q (stream self) ds = Some (q', s')"
  proof -
    from that(2) st have ents: "entries (structs self) q (stream self) ds = Some (q', s')"
      by simp
    then have codes: "\<forall>d \<in> set ds. code d \<noteq> 0" by (rule entries_codes)
    have scan: "get_abbrev self 0 = get_abbrev_scan self 0"
      using none by (simp add: get_abbrev_def)
    have "get_abbrev self 0 = Some (Inl (KeyError 0), exhausted ds s'' self)"
      if "Dwarf_uleb128 st (seek q' s') = (Inr 0, s'')"
      unfolding scan using cur ents codes that [folded st] by (rule scan_to_terminator)
    moreover have "get_abbrev self 0 = Some (Inl (reraised e), exhausted ds s'' self)"
      if "Dwarf_uleb128 st (seek q' s') = (Inl e, s'')"
      unfolding scan using cur ents codes that [folded st] by (rule scan_to_code_error)
    moreover have "get_abbrev self 0 = Some (Inl (reraised e), exhausted ds s'' self)"
      if "Dwarf_uleb128 st (seek q' s') = (Inr k, s1)" and "k \<noteq> 0"
        and "Dwarf_abbrev_declaration st s1 = (Inl e, s'')"
      unfolding scan using cur ents codes that [folded st] by (rule scan_to_body_error)
    ultimately show ?thesis by blast
  qed
  have total: "\<exists>e self1. get_abbrev self 0 = Some (Inl e, self1)" if "consuming st"
  proof -
    from that st have "consuming (structs self)" by simp
    from get_abbrev_returns [OF this, of 0] obtain r self1
      where "get_abbrev self 0 = Some (r, self1)" by auto
    with ret [OF this] show ?thesis by auto
  qed
  have kind: "r = Inl (KeyError 0) \<or> (\<exists>m. r = Inl (ELFParseError m))"
    if "construct_errors st" and "get_abbrev self 0 = Some (r, self1)"
  proof -
    from that(2) have post: "lookup_post self 0 (r, self1)" by (rule get_abbrev_post)
    from ret [OF that(2)] obtain e where "r = Inl e" by auto
    with post that(1) st show ?thesis by (auto simp: lookup_post_def)
  qed
  from none ret over rest kind total show ?thesis by blast
qed

theorem get_abbrev_zero_fails_witness:
  "calls (AbbrevTable_init dwarf_structs (stream_of example_bytes) 2) [1] =
     Some (example_table 18 16 2 (Suspended 18) [3 \<mapsto> example_decl3, 1 \<mapsto> example_decl1])
   \<and> consuming dwarf_structs \<and> construct_errors dwarf_structs
   \<and> abbrev_map (example_table 18 16 2 (Suspended 18) [3 \<mapsto> example_decl3, 1 \<mapsto> example_decl1]) 0 = None
   \<and> get_abbrev (example_table 18 16 2 (Suspended 18) [3 \<mapsto> example_decl3, 1 \<mapsto> example_decl1]) 0 =
     Some (Inl (KeyError 0), example_table 26 24 4 Finished
       [3 \<mapsto> example_decl3, 1 \<mapsto> example_decl1, 7 \<mapsto> example_decl7])
   \<and> get_abbrev (example_table 26 24 4 Finished
       [3 \<mapsto> example_decl3, 1 \<mapsto> example_decl1, 7 \<mapsto> example_decl7]) 0 =
     Some (Inl (KeyError 0), example_table 26 24 4 Finished
       [3 \<mapsto> example_decl3, 1 \<mapsto> example_decl1, 7 \<mapsto> example_decl7])
   \<and> get_abbrev (AbbrevTable_init dwarf_structs (stream_of truncated_bytes) 0) 0 =
     Some (Inl (ELFParseError ''missing terminator''),
       \<lparr>structs = dwarf_structs,
        stream = \<lparr>buf = truncated_bytes, pos = 5, reads = 6, seeks = 2\<rparr>,
        offset = 0, parser_state = Finished, abbrev_map = [3 \<mapsto> truncated_decl3]\<rparr>)"
proof -
  let ?t2 = "example_table 18 16 2 (Suspended 18) [3 \<mapsto> example_decl3, 1 \<mapsto> example_decl1]"
  let ?t4 = "example_table 26 24 4 Finished
       [3 \<mapsto> example_decl3, 1 \<mapsto> example_decl1, 7 \<mapsto> example_decl7]"
  let ?s3 = "\<lparr>buf = example_bytes, pos = 25, reads = 23, seeks = 3\<rparr>"
  let ?s4 = "\<lparr>buf = example_bytes, pos = 26, reads = 24, seeks = 4\<rparr>"
  let ?u0 = "AbbrevTable_init dwarf_structs (stream_of truncated_bytes) 0"
  let ?v1 = "\<lparr>buf = truncated_bytes, pos = 5, reads = 5, seeks = 1\<rparr>"
  let ?v2 = "\<lparr>buf = truncated_bytes, pos = 5, reads = 6, seeks = 2\<rparr>"
  have reach: "calls (AbbrevTable_init dwarf_structs (stream_of example_bytes) 2) [1] = Some ?t2"
    by (simp add: example_fresh example_get_1)
  have cur: "cursor ?t2 = Some 18"
    by (simp add: cursor_def example_table_def)
  have table: "entries dwarf_structs 18 (stream ?t2) [example_decl7] = Some (25, ?s3)"
    using example_entries_7 by (simp add: example_table_def)
  have final: "exhausted [example_decl7] ?s4 ?t2 = ?t4"
    by (simp add: example_table_def example_codes)
  note inst = get_abbrev_zero_fails [OF reach, where q = 18 and ds = "[example_decl7]"
      and q' = 25 and s' = ?s3 and s'' = ?s4 and r = "Inl (KeyError 0)" and ?self1.0 = ?t4]
  from inst cur table example_terminator have call: "get_abbrev ?t2 0 = Some (Inl (KeyError 0), ?t4)"
    unfolding final by blast
  with inst have again: "get_abbrev ?t4 0 = Some (Inl (KeyError 0), ?t4)" and none: "abbrev_map ?t2 0 = None"
    by blast+
  have start: "calls ?u0 [] = Some ?u0" by simp
  have cur0: "cursor ?u0 = Some 0" by (rule cursor_fresh)
  have table0: "entries dwarf_structs 0 (stream ?u0) [truncated_decl3] = Some (5, ?v1)"
    using truncated_entries by (simp add: AbbrevTable_init_def)
  have final0: "exhausted [truncated_decl3] ?v2 ?u0 =
      \<lparr>structs = dwarf_structs, stream = ?v2, offset = 0, parser_state = Finished,
       abbrev_map = [3 \<mapsto> truncated_decl3]\<rparr>"
    by (simp add: AbbrevTable_init_def truncated_decl3_def)
  note inst0 = get_abbrev_zero_fails [OF start, where q = 0 and ds = "[truncated_decl3]"
      and q' = 5 and s' = ?v1 and s'' = ?v2 and e = "ConstructError ''missing terminator''"]
  from inst0 cur0 table0 truncated_end
  have "get_abbrev ?u0 0 = Some (Inl (reraised (ConstructError ''missing terminator'')),
      exhausted [truncated_decl3] ?v2 ?u0)"
    by blast
  then have cut: "get_abbrev ?u0 0 = Some (Inl (ELFParseError ''missing terminator''),
      \<lparr>structs = dwarf_structs, stream = ?v2, offset = 0, parser_state = Finished,
       abbrev_map = [3 \<mapsto> truncated_decl3]\<rparr>)"
    unfolding final0 by (simp add: reraised_def)
  from reach call again none cut consuming_dwarf_structs construct_errors_dwarf_structs
  show ?thesis by simp
qed

end
